theory Spec2Isabelle
  imports Main "HOL-Library.Word" "HOL-Library.Multiset"
begin

unbundle bit_operations_syntax

section \<open>The orphan block container (src/storage/obc.cpp)\<close>

subsection \<open>Data\<close>

type_synonym uint256 = "256 word"

text \<open>A block, as far as the container looks at it: its own hash and the three parent
  hashes, named after the accessors the container calls.\<close>

record Block =
  GetHash :: uint256
  GetMilestoneHash :: uint256
  GetTipHash :: uint256
  GetPrevHash :: uint256

text \<open>An \<open>obc_dep_ptr\<close> is a shared pointer to an \<open>obc_dep\<close>. The same object is
  referenced from \<open>block_dep_map\<close>, from the sets in \<open>lose_ends\<close> and from the \<open>deps\<close>
  vectors of other objects, and \<open>SubmitHash\<close> mutates it through any of them, so the objects
  live in an explicit store: a pointer is an index into \<open>heap\<close>, \<open>make_shared\<close> appends.

  The declaration of \<open>obc_dep\<close> (obc.h) is not among the sources. The counter \<open>ndeps\<close> is
  assigned a \<open>size()\<close>, decremented with \<open>--\<close> and tested with \<open>> 0\<close>; it is modelled as
  an unsigned machine integer whose width \<open>'w\<close> is left open.\<close>

type_synonym obc_dep_ptr = nat

record (overloaded) ('w::len) obc_dep =
  block :: Block
  ndeps :: "'w word"
  deps :: "obc_dep_ptr list"

text \<open>\<open>lose_ends\<close> maps a hash to an unordered set of pointers. A set is kept as a list
  without repetitions; its iteration order (which the C++ leaves open) is the list order.\<close>

record (overloaded) ('w::len) OrphanBlocksContainer =
  heap :: "'w obc_dep list"
  block_dep_map :: "uint256 \<rightharpoonup> obc_dep_ptr"
  lose_ends :: "uint256 \<rightharpoonup> obc_dep_ptr list"

definition obc_empty :: "('w::len) OrphanBlocksContainer" where
  "obc_empty = \<lparr>heap = [], block_dep_map = Map.empty, lose_ends = Map.empty\<rparr>"

text \<open>Modelled from the spec: the flags \<open>M_MISSING\<close>, \<open>T_MISSING\<close>, \<open>P_MISSING\<close> are
  declared in obc.h, which is not among the sources. The spec calls the mask a bitset over
  the three flags; they are taken as three distinct single bits of the \<open>uint8_t\<close> mask.\<close>

definition M_MISSING :: "8 word" where "M_MISSING = 1"
definition T_MISSING :: "8 word" where "T_MISSING = 2"
definition P_MISSING :: "8 word" where "P_MISSING = 4"

subsection \<open>Observers\<close>

definition Size :: "('w::len) OrphanBlocksContainer \<Rightarrow> nat" where
  "Size s = card (dom (block_dep_map s))"

definition DependencySize :: "('w::len) OrphanBlocksContainer \<Rightarrow> nat" where
  "DependencySize s = card (dom (lose_ends s))"

definition Contains :: "uint256 \<Rightarrow> ('w::len) OrphanBlocksContainer \<Rightarrow> bool" where
  "Contains hash s = (block_dep_map s hash \<noteq> None)"

subsection \<open>AddBlock\<close>

text \<open>\<open>unordered_set::insert\<close> on the list representation.\<close>

definition set_insert :: "'a \<Rightarrow> 'a list \<Rightarrow> 'a list" where
  "set_insert x xs = (if x \<in> set xs then xs else xs @ [x])"

text \<open>The lambda \<open>common_insert\<close>. It captures \<open>dep\<close> and the local set
  \<open>unique_missing_hashes\<close>, which is threaded through next to the container.
  \<open>lose_ends_[hash]\<close> creates an empty set when the key is absent.\<close>

definition common_insert ::
  "obc_dep_ptr \<Rightarrow> uint256 \<Rightarrow> ('w::len) OrphanBlocksContainer \<times> uint256 list
     \<Rightarrow> 'w OrphanBlocksContainer \<times> uint256 list" where
  "common_insert dep hash = (\<lambda>(s, unique_missing_hashes).
     (case block_dep_map s hash of
        None \<Rightarrow>
          s\<lparr>lose_ends := (lose_ends s)
               (hash \<mapsto> set_insert dep (case lose_ends s hash of None \<Rightarrow> [] | Some l \<Rightarrow> l))\<rparr>
      | Some it \<Rightarrow>
          s\<lparr>heap := (heap s)[it := (heap s ! it)\<lparr>deps := deps (heap s ! it) @ [dep]\<rparr>]\<rparr>,
      set_insert hash unique_missing_hashes))"

definition AddBlock ::
  "Block \<Rightarrow> 8 word \<Rightarrow> ('w::len) OrphanBlocksContainer \<Rightarrow> 'w OrphanBlocksContainer" where
  "AddBlock blk missing_mask s =
     (if missing_mask = 0 then s
      else
        let dep = length (heap s);
            s0 = s\<lparr>heap := heap s @ [\<lparr>block = blk, ndeps = 0, deps = []\<rparr>]\<rparr>;
            s1 = s0\<lparr>block_dep_map := (block_dep_map s0)(GetHash blk \<mapsto> dep)\<rparr>;
            c1 = (if missing_mask AND M_MISSING \<noteq> 0
                  then common_insert dep (GetMilestoneHash blk) (s1, []) else (s1, []));
            c2 = (if missing_mask AND T_MISSING \<noteq> 0
                  then common_insert dep (GetTipHash blk) c1 else c1);
            c3 = (if missing_mask AND P_MISSING \<noteq> 0
                  then common_insert dep (GetPrevHash blk) c2 else c2);
            s3 = fst c3
        in s3\<lparr>heap := (heap s3)[dep := (heap s3 ! dep)\<lparr>ndeps := of_nat (length (snd c3))\<rparr>]\<rparr>)"

subsection \<open>SubmitHash\<close>

text \<open>One pass through the body of the \<open>while\<close> loop, \<open>cursor\<close> already popped. The
  vector \<open>stack\<close> is a list whose head is the vector's back, so pushing the elements of
  \<open>deps\<close> one after the other leaves them reversed in front of the rest.\<close>

definition release_step ::
  "obc_dep_ptr \<Rightarrow> obc_dep_ptr list \<Rightarrow> Block list \<Rightarrow> ('w::len) OrphanBlocksContainer
     \<Rightarrow> obc_dep_ptr list \<times> Block list \<times> 'w OrphanBlocksContainer" where
  "release_step cursor stack result s =
     (let c = (heap s ! cursor)\<lparr>ndeps := ndeps (heap s ! cursor) - 1\<rparr>;
          s1 = s\<lparr>heap := (heap s)[cursor := c]\<rparr>
      in if 0 < ndeps c then (stack, result, s1)
         else (rev (deps c) @ stack, result @ [block c],
               s1\<lparr>block_dep_map := (block_dep_map s1)(GetHash (block c) := None)\<rparr>))"

text \<open>The loop itself. Nothing in the code bounds the number of passes, so the loop is a
  partial function: \<open>None\<close> stands for a loop that never leaves.\<close>

partial_function (option) release_loop ::
  "obc_dep_ptr list \<Rightarrow> Block list \<Rightarrow> ('w::len) OrphanBlocksContainer
     \<Rightarrow> (Block list \<times> 'w OrphanBlocksContainer) option" where
  "release_loop stack result s =
     (case stack of
        [] \<Rightarrow> Some (result, s)
      | cursor # rest \<Rightarrow>
          (case release_step cursor rest result s of
             (stack', result', s') \<Rightarrow> release_loop stack' result' s'))"

declare release_loop.simps [code]

text \<open>\<open>SubmitHash\<close> returns a \<open>std::optional\<close>: the inner option. The outer option is
  the loop's termination.\<close>

definition SubmitHash ::
  "uint256 \<Rightarrow> ('w::len) OrphanBlocksContainer
     \<Rightarrow> (Block list option \<times> 'w OrphanBlocksContainer) option" where
  "SubmitHash hash s =
     (case lose_ends s hash of
        None \<Rightarrow> Some (None, s)
      | Some rng \<Rightarrow>
          (case release_loop (rev rng) [] (s\<lparr>lose_ends := (lose_ends s)(hash := None)\<rparr>) of
             None \<Rightarrow> None
           | Some (result, s') \<Rightarrow> Some (Some result, s')))"

subsection \<open>Sequences of calls\<close>

datatype obc_call = Add Block "8 word" | Submit uint256

text \<open>Runs the calls in order from a given container and collects, in order, every block
  that some \<open>SubmitHash\<close> returned.\<close>

fun run ::
  "obc_call list \<Rightarrow> ('w::len) OrphanBlocksContainer
     \<Rightarrow> (Block list \<times> 'w OrphanBlocksContainer) option" where
  "run [] s = Some ([], s)"
| "run (Add blk missing_mask # cs) s = run cs (AddBlock blk missing_mask s)"
| "run (Submit hash # cs) s =
     (case SubmitHash hash s of
        None \<Rightarrow> None
      | Some (r, s') \<Rightarrow>
          (case run cs s' of
             None \<Rightarrow> None
           | Some (out, s'') \<Rightarrow> Some ((case r of None \<Rightarrow> [] | Some bs \<Rightarrow> bs) @ out, s'')))"

text \<open>The parents a mask selects, in the words of the specification: the milestone, tip
  and previous hash for the bits \<open>M_MISSING\<close>, \<open>T_MISSING\<close>, \<open>P_MISSING\<close>.\<close>

definition selected_parents :: "Block \<Rightarrow> 8 word \<Rightarrow> uint256 list" where
  "selected_parents blk missing_mask =
     (if missing_mask AND M_MISSING \<noteq> 0 then [GetMilestoneHash blk] else []) @
     (if missing_mask AND T_MISSING \<noteq> 0 then [GetTipHash blk] else []) @
     (if missing_mask AND P_MISSING \<noteq> 0 then [GetPrevHash blk] else [])"

text \<open>The hashes of the blocks a sequence of calls stores (a zero mask stores nothing).\<close>

fun added_hashes :: "obc_call list \<Rightarrow> uint256 list" where
  "added_hashes [] = []"
| "added_hashes (Add blk missing_mask # cs) =
     (if missing_mask = 0 then added_hashes cs else GetHash blk # added_hashes cs)"
| "added_hashes (Submit hash # cs) = added_hashes cs"

text \<open>Every non-zero mask of the sequence selects at least one parent and no parent hash
  twice.\<close>

fun well_masked :: "obc_call list \<Rightarrow> bool" where
  "well_masked [] = True"
| "well_masked (Add blk missing_mask # cs) =
     ((missing_mask = 0 \<or>
       (selected_parents blk missing_mask \<noteq> [] \<and> distinct (selected_parents blk missing_mask)))
      \<and> well_masked cs)"
| "well_masked (Submit hash # cs) = well_masked cs"

section \<open>The peer manager (src/peer/peer_manager.cpp)\<close>

subsection \<open>Data\<close>

text \<open>Modelled from the spec: the classes \<open>Peer\<close>, \<open>VersionMessage\<close> and \<open>NetAddress\<close>
  are declared outside the sources. A peer is the record of the members and observers that
  \<open>PeerManager\<close> reads. Addresses are only compared, so their type \<open>'a\<close> is left open.
  \<open>versionMessage\<close> is a pointer that is read with \<open>->\<close>; it is null until the peer's
  version message has arrived. Times are \<open>uint64_t\<close> seconds.\<close>

record 'a VersionMessage =
  address_me :: 'a

record 'a Peer =
  address :: 'a
  isSeed :: bool
  isFullyConnected :: bool
  connected_time :: "64 word"
  versionMessage :: "'a VersionMessage option"
  IsVaild :: bool
  GetLastPingTime :: "64 word"
  GetNPingFailed :: "64 word"
  IsSyncTimeout :: bool

text \<open>\<open>peerMap_\<close>, keyed on the connection handle, in the order the loops iterate it.\<close>

type_synonym connection = nat
type_synonym 'a peerMap = "(connection \<times> 'a Peer) list"

text \<open>The constants of src/net/peer_manager.h.\<close>

definition kMax_outbound :: nat where "kMax_outbound = 8"
definition kConnectionSetupTimeout :: "64 word" where "kConnectionSetupTimeout = 3 * 60"
definition kPingWaitTimeout :: "64 word" where "kPingWaitTimeout = 3 * 60"
definition kMaxPingFailures :: "64 word" where "kMaxPingFailures = 3"

text \<open>What a function does to its collaborators (address manager, connection manager, the
  peer itself) is returned as the list of the calls it makes, in order.\<close>

datatype 'a net_call =
    AddNewAddress 'a
  | RelayAddressMsg "'a list"
  | Disconnect
  | ConnectTo 'a
  | SetLastTry 'a "64 word"

datatype failure = NullDereference

subsection \<open>ProcessAddressMessage\<close>

text \<open>The \<open>for\<close> loop over the address list: the calls made and the relay message built.
  \<open>kMaxAddressSize\<close> and \<open>IsRoutable\<close> belong to classes outside the sources and are
  parameters.\<close>

fun save_addresses ::
  "('a \<Rightarrow> bool) \<Rightarrow> 'a list \<Rightarrow> 'a net_call list \<times> 'a list \<Rightarrow> 'a net_call list \<times> 'a list" where
  "save_addresses IsRoutable [] acc = acc"
| "save_addresses IsRoutable (addr # rest) (calls, relayMessage) =
     (if IsRoutable addr
      then save_addresses IsRoutable rest (calls @ [AddNewAddress addr], relayMessage @ [addr])
      else save_addresses IsRoutable rest (calls, relayMessage))"

definition ProcessAddressMessage ::
  "nat \<Rightarrow> ('a \<Rightarrow> bool) \<Rightarrow> 'a list \<Rightarrow> 'a Peer \<Rightarrow> 'a net_call list" where
  "ProcessAddressMessage kMaxAddressSize IsRoutable addressList peer =
     (if kMaxAddressSize < length addressList then []
      else
        (case save_addresses IsRoutable addressList ([], []) of
           (calls, relayMessage) \<Rightarrow>
             calls @ (if relayMessage \<noteq> [] then [RelayAddressMsg relayMessage] else []))) @
     (if isSeed peer then [Disconnect] else [])"

subsection \<open>HasConnectedTo\<close>

fun HasConnectedTo :: "'a \<Rightarrow> 'a peerMap \<Rightarrow> failure + bool" where
  "HasConnectedTo addr [] = Inr False"
| "HasConnectedTo addr ((c, peer) # rest) =
     (if addr = address peer then Inr True
      else
        (case versionMessage peer of
           None \<Rightarrow> Inl NullDereference
         | Some vm \<Rightarrow> if addr = address_me vm then Inr True else HasConnectedTo addr rest))"

subsection \<open>OpenConnection\<close>

text \<open>The address manager and the clock, as one pass of the outer loop sees them: the
  answer of \<open>GetOneSeed\<close> already turned into a \<open>NetAddress\<close> with the default port, the
  answer of the \<open>n\<close>-th call of \<open>GetOneAddress\<close> in this pass, \<open>GetLastTry\<close> and
  \<open>time(nullptr)\<close>.\<close>

record 'a dial_env =
  GetOutboundNum :: nat
  GetOneSeed :: "'a option"
  GetOneAddress :: "nat \<Rightarrow> 'a option"
  GetLastTry :: "'a \<Rightarrow> 64 word"
  time_now :: "64 word"

text \<open>The inner \<open>while (num_tries < 100)\<close> loop.\<close>

function try_addresses :: "'a dial_env \<Rightarrow> 'a peerMap \<Rightarrow> nat \<Rightarrow> failure + 'a net_call list" where
  "try_addresses env peers num_tries =
     (if num_tries < 100 then
        (case GetOneAddress env num_tries of
           None \<Rightarrow> Inr []
         | Some try_to_connect \<Rightarrow>
             (case HasConnectedTo try_to_connect peers of
                Inl e \<Rightarrow> Inl e
              | Inr True \<Rightarrow> try_addresses env peers (num_tries + 1)
              | Inr False \<Rightarrow>
                  if time_now env - GetLastTry env try_to_connect < 120
                  then try_addresses env peers (num_tries + 1)
                  else Inr [ConnectTo try_to_connect, SetLastTry try_to_connect (time_now env)]))
      else Inr [])"
  by pat_completeness auto
termination
  by (relation "measure (\<lambda>(env, peers, num_tries). 100 - num_tries)") auto

declare try_addresses.simps [simp del]

text \<open>One pass of the outer \<open>while (!interrupt_)\<close> loop, after the sleep.\<close>

definition OpenConnection_pass :: "'a dial_env \<Rightarrow> 'a peerMap \<Rightarrow> failure + 'a net_call list" where
  "OpenConnection_pass env peers =
     (if kMax_outbound < GetOutboundNum env then Inr []
      else
        (case try_addresses env peers 0 of
           Inl e \<Rightarrow> Inl e
         | Inr calls \<Rightarrow>
             Inr ((case GetOneSeed env of None \<Rightarrow> [] | Some seed_address \<Rightarrow> [ConnectTo seed_address])
                  @ calls)))"

subsection \<open>CheckTimeout\<close>

text \<open>The sweep returns the peer map it leaves and the connections of the peers it called
  \<open>Disconnect\<close> on.\<close>

fun CheckTimeout :: "64 word \<Rightarrow> 'a peerMap \<Rightarrow> 'a peerMap \<times> connection list" where
  "CheckTimeout now [] = ([], [])"
| "CheckTimeout now ((c, peer) # rest) =
     (case CheckTimeout now rest of
        (kept, disconnected) \<Rightarrow>
          if \<not> IsVaild peer then (kept, disconnected)
          else if isFullyConnected peer then
            (if GetLastPingTime peer + kPingWaitTimeout < now
                \<or> kMaxPingFailures < GetNPingFailed peer
             then (kept, c # disconnected)
             else if IsSyncTimeout peer then (kept, c # disconnected)
             else ((c, peer) # kept, disconnected))
          else
            (if connected_time peer + kConnectionSetupTimeout < now
             then (kept, c # disconnected)
             else ((c, peer) # kept, disconnected)))"

section \<open>Notions used in the proofs\<close>

subsection \<open>AddBlock in three phases\<close>

text \<open>\<open>AddBlock\<close> with a non-zero mask allocates the object and stores it under the
  block's hash, calls \<open>common_insert\<close> for each selected parent, and sets the counter.\<close>

definition AddBlock_start ::
  "Block \<Rightarrow> ('w::len) OrphanBlocksContainer \<Rightarrow> 'w OrphanBlocksContainer \<times> uint256 list" where
  "AddBlock_start blk s =
     (s\<lparr>heap := heap s @ [\<lparr>block = blk, ndeps = 0, deps = []\<rparr>],
        block_dep_map := (block_dep_map s)(GetHash blk \<mapsto> length (heap s))\<rparr>, [])"

definition AddBlock_finish ::
  "obc_dep_ptr \<Rightarrow> ('w::len) OrphanBlocksContainer \<times> uint256 list \<Rightarrow> 'w OrphanBlocksContainer" where
  "AddBlock_finish dep c =
     (fst c)\<lparr>heap := (heap (fst c))[dep := (heap (fst c) ! dep)\<lparr>ndeps := of_nat (length (snd c))\<rparr>]\<rparr>"

subsection \<open>Pending notifications\<close>

text \<open>An object is live while its counter is 1, 2 or 3: it has been filed and not yet
  released. Every occurrence of a pointer on the work stack, in a set of \<open>lose_ends\<close> or in
  the \<open>deps\<close> of a live object is one decrement that is still to come.\<close>

definition live :: "('w::len) obc_dep \<Rightarrow> bool" where
  "live e \<longleftrightarrow> 1 \<le> unat (ndeps e) \<and> unat (ndeps e) \<le> 3"

definition dep_notifies :: "('w::len) obc_dep \<Rightarrow> obc_dep_ptr multiset" where
  "dep_notifies e = (if live e then mset (deps e) else {#})"

definition waiting_in_deps :: "('w::len) obc_dep list \<Rightarrow> obc_dep_ptr multiset" where
  "waiting_in_deps es = (\<Sum>e\<leftarrow>es. dep_notifies e)"

definition waiting_in_lose_ends :: "(uint256 \<rightharpoonup> obc_dep_ptr list) \<Rightarrow> obc_dep_ptr multiset" where
  "waiting_in_lose_ends le = (\<Sum>h\<in>dom le. mset (the (le h)))"

definition notifications ::
  "obc_dep_ptr list \<Rightarrow> ('w::len) OrphanBlocksContainer \<Rightarrow> obc_dep_ptr multiset" where
  "notifications stack s = mset stack + waiting_in_lose_ends (lose_ends s) + waiting_in_deps (heap s)"

text \<open>How many decrements an object may still receive, by its counter: three while it is
  live, two once it has been released (counter 0), one and none after the counter has
  wrapped to \<open>-1\<close> and \<open>-2\<close>.\<close>

definition allowance :: "('w::len) word \<Rightarrow> nat" where
  "allowance n =
     (if 1 \<le> unat n \<and> unat n \<le> 3 then 3
      else if unat n = 0 then 2
      else unat n + 2 - 2 ^ LENGTH('w))"

definition obc_inv :: "obc_dep_ptr list \<Rightarrow> ('w::len) OrphanBlocksContainer \<Rightarrow> bool" where
  "obc_inv stack s \<longleftrightarrow>
     finite (dom (lose_ends s)) \<and>
     (\<forall>d\<in>#notifications stack s. d < length (heap s)) \<and>
     (\<forall>d. count (notifications stack s) d \<le> allowance (ndeps (heap s ! d)))"

definition loop_measure :: "obc_dep_ptr list \<Rightarrow> ('w::len) OrphanBlocksContainer \<Rightarrow> nat" where
  "loop_measure stack s = length stack + size (waiting_in_deps (heap s))"

text \<open>The invariant between the calls of \<open>common_insert\<close> in \<open>AddBlock\<close>: \<open>d\<close> is the new
  object, \<open>k\<close> the number of calls made so far.\<close>

definition adding_inv ::
  "obc_dep_ptr \<Rightarrow> nat \<Rightarrow> ('w::len) OrphanBlocksContainer \<times> uint256 list \<Rightarrow> bool" where
  "adding_inv d k c \<longleftrightarrow>
     finite (dom (lose_ends (fst c))) \<and>
     length (heap (fst c)) = Suc d \<and>
     (\<forall>x\<in>#notifications [] (fst c). x \<le> d) \<and>
     (\<forall>x. x \<noteq> d \<longrightarrow> count (notifications [] (fst c)) x \<le> allowance (ndeps (heap (fst c) ! x))) \<and>
     ndeps (heap (fst c) ! d) = 0 \<and>
     set (deps (heap (fst c) ! d)) \<subseteq> {d} \<and>
     count (notifications [] (fst c)) d + length (deps (heap (fst c) ! d)) \<le> k \<and>
     length (snd c) \<le> k \<and> (k = 0 \<or> snd c \<noteq> [])"

subsection \<open>Exact counters\<close>

text \<open>When no block lists the same parent hash twice, the counter of a live object is the
  number of decrements still to come, an object that is not live expects none, and every
  object stored in \<open>block_dep_map\<close> is live.\<close>

definition exact_inv :: "obc_dep_ptr list \<Rightarrow> ('w::len) OrphanBlocksContainer \<Rightarrow> bool" where
  "exact_inv stack s \<longleftrightarrow>
     finite (dom (lose_ends s)) \<and>
     (\<forall>d\<in>#notifications stack s. d < length (heap s)) \<and>
     (\<forall>d<length (heap s). count (notifications stack s) d
        = (if live (heap s ! d) then unat (ndeps (heap s ! d)) else 0)) \<and>
     (\<forall>h p. block_dep_map s h = Some p \<longrightarrow>
        p < length (heap s) \<and> live (heap s ! p) \<and> GetHash (block (heap s ! p)) = h)"

text \<open>Between the calls of \<open>common_insert\<close>: \<open>filed\<close> are the parent hashes handled so
  far.\<close>

definition adding_exact ::
  "obc_dep_ptr \<Rightarrow> uint256 list \<Rightarrow> ('w::len) OrphanBlocksContainer \<times> uint256 list \<Rightarrow> bool" where
  "adding_exact d filed c \<longleftrightarrow>
     finite (dom (lose_ends (fst c))) \<and>
     length (heap (fst c)) = Suc d \<and>
     (\<forall>x\<in>#notifications [] (fst c). x \<le> d) \<and>
     (\<forall>x<d. count (notifications [] (fst c)) x
        = (if live (heap (fst c) ! x) then unat (ndeps (heap (fst c) ! x)) else 0)) \<and>
     ndeps (heap (fst c) ! d) = 0 \<and>
     set (deps (heap (fst c) ! d)) \<subseteq> {d} \<and>
     count (notifications [] (fst c)) d + length (deps (heap (fst c) ! d)) = length filed \<and>
     snd c = filed \<and> distinct filed \<and>
     (\<forall>k l. lose_ends (fst c) k = Some l \<longrightarrow> d \<in> set l \<longrightarrow> k \<in> set filed) \<and>
     (\<forall>h p. block_dep_map (fst c) h = Some p \<longrightarrow>
        p \<le> d \<and> GetHash (block (heap (fst c) ! p)) = h \<and> (p \<noteq> d \<longrightarrow> live (heap (fst c) ! p)))"

subsection \<open>Released blocks and stored hashes\<close>

definition stored_hashes :: "('w::len) obc_dep list \<Rightarrow> uint256 list" where
  "stored_hashes es = map (\<lambda>e. GetHash (block e)) es"

text \<open>\<open>out\<close> are the blocks released so far: no block twice, every one the block of a
  stored object, none the block of a live object.\<close>

definition released_inv :: "Block list \<Rightarrow> ('w::len) OrphanBlocksContainer \<Rightarrow> bool" where
  "released_inv out s \<longleftrightarrow>
     distinct out \<and>
     distinct (stored_hashes (heap s)) \<and>
     (\<forall>b\<in>set out. \<exists>i<length (heap s). block (heap s ! i) = b) \<and>
     (\<forall>i<length (heap s). live (heap s ! i) \<longrightarrow> block (heap s ! i) \<notin> set out)"

definition map_inv :: "('w::len) OrphanBlocksContainer \<Rightarrow> bool" where
  "map_inv s \<longleftrightarrow>
     (\<forall>h p. block_dep_map s h = Some p \<longrightarrow>
        p < length (heap s) \<and> GetHash (block (heap s ! p)) = h)"

subsection \<open>The timeouts of the sweep, as the specification words them\<close>

definition ping_or_sync_timeout :: "64 word \<Rightarrow> 'a Peer \<Rightarrow> bool" where
  "ping_or_sync_timeout now p \<longleftrightarrow>
     GetLastPingTime p + kPingWaitTimeout < now \<or> kMaxPingFailures < GetNPingFailed p
     \<or> IsSyncTimeout p"

definition setup_timeout :: "64 word \<Rightarrow> 'a Peer \<Rightarrow> bool" where
  "setup_timeout now p \<longleftrightarrow> connected_time p + kConnectionSetupTimeout < now"

definition timed_out :: "64 word \<Rightarrow> 'a Peer \<Rightarrow> bool" where
  "timed_out now p =
     (if isFullyConnected p then ping_or_sync_timeout now p else setup_timeout now p)"

subsection \<open>Sample data\<close>

text \<open>Hash 10 stands for a block A that the container never sees. B is missing its previous
  block A, C is missing its previous block B, D names B as milestone and as tip.\<close>

definition block_B :: Block where
  "block_B = \<lparr>GetHash = 11, GetMilestoneHash = 1, GetTipHash = 2, GetPrevHash = 10\<rparr>"

definition block_C :: Block where
  "block_C = \<lparr>GetHash = 12, GetMilestoneHash = 1, GetTipHash = 2, GetPrevHash = 11\<rparr>"

definition block_D :: Block where
  "block_D = \<lparr>GetHash = 13, GetMilestoneHash = 11, GetTipHash = 11, GetPrevHash = 99\<rparr>"

definition peer_handshaking :: "nat Peer" where
  "peer_handshaking =
     \<lparr>address = 1, isSeed = False, isFullyConnected = False, connected_time = 1000,
      versionMessage = None, IsVaild = True, GetLastPingTime = 0, GetNPingFailed = 0,
      IsSyncTimeout = False\<rparr>"

definition peer_connected :: "nat Peer" where
  "peer_connected =
     \<lparr>address = 2, isSeed = False, isFullyConnected = True, connected_time = 1000,
      versionMessage = Some \<lparr>address_me = 7\<rparr>, IsVaild = True, GetLastPingTime = 1900,
      GetNPingFailed = 0, IsSyncTimeout = False\<rparr>"

definition peer_seed :: "nat Peer" where
  "peer_seed =
     \<lparr>address = 3, isSeed = True, isFullyConnected = True, connected_time = 1000,
      versionMessage = Some \<lparr>address_me = 7\<rparr>, IsVaild = True, GetLastPingTime = 1900,
      GetNPingFailed = 0, IsSyncTimeout = False\<rparr>"

text \<open>Addresses are numbers here; those above 2 count as routable.\<close>

definition routable_sample :: "nat \<Rightarrow> bool" where
  "routable_sample a \<longleftrightarrow> 2 < a"

definition dial_env_full :: "nat dial_env" where
  "dial_env_full =
     \<lparr>GetOutboundNum = 8, GetOneSeed = Some 7, GetOneAddress = (\<lambda>n. Some 5),
      GetLastTry = (\<lambda>a. 0), time_now = 1000\<rparr>"

subsection \<open>Blocks a call of SubmitHash is bound to release\<close>

text \<open>\<open>fires s h d\<close>: in the container \<open>s\<close>, the object \<open>d\<close> has one decrement left to
  receive and \<open>SubmitHash h\<close> delivers it, either because \<open>d\<close> waits in \<open>lose_ends\<close> under
  \<open>h\<close> or because \<open>d\<close> is in the \<open>deps\<close> of an object that fires.\<close>

inductive fires :: "('w::len) OrphanBlocksContainer \<Rightarrow> uint256 \<Rightarrow> obc_dep_ptr \<Rightarrow> bool"
  for s :: "('w::len) OrphanBlocksContainer" and h :: uint256 where
  direct: "lose_ends s h = Some l \<Longrightarrow> d \<in> set l \<Longrightarrow> ndeps (heap s ! d) = 1 \<Longrightarrow> fires s h d"
| cascade: "fires s h x \<Longrightarrow> d \<in> set (deps (heap s ! x)) \<Longrightarrow> ndeps (heap s ! d) = 1 \<Longrightarrow> fires s h d"

text \<open>\<open>notified s h d\<close>: \<open>SubmitHash h\<close> can reach \<open>d\<close> at all, from \<open>lose_ends\<close> under \<open>h\<close>
  through \<open>deps\<close>.\<close>

inductive notified :: "('w::len) OrphanBlocksContainer \<Rightarrow> uint256 \<Rightarrow> obc_dep_ptr \<Rightarrow> bool"
  for s :: "('w::len) OrphanBlocksContainer" and h :: uint256 where
  waiting: "lose_ends s h = Some l \<Longrightarrow> d \<in> set l \<Longrightarrow> notified s h d"
| dependent: "notified s h x \<Longrightarrow> d \<in> set (deps (heap s ! x)) \<Longrightarrow> notified s h d"

text \<open>\<open>all_supplied s h d\<close>: the object \<open>d\<close> is live, it waits in no set of \<open>lose_ends\<close> other
  than that of \<open>h\<close>, and every live object that has \<open>d\<close> in its \<open>deps\<close> is \<open>all_supplied\<close>
  itself: \<open>SubmitHash h\<close> delivers every decrement that \<open>d\<close> still waits for.\<close>

inductive all_supplied :: "('w::len) OrphanBlocksContainer \<Rightarrow> uint256 \<Rightarrow> obc_dep_ptr \<Rightarrow> bool"
  for s :: "('w::len) OrphanBlocksContainer" and h :: uint256 where
  "d < length (heap s) \<Longrightarrow> live (heap s ! d) \<Longrightarrow>
   (\<forall>k l. k \<noteq> h \<longrightarrow> lose_ends s k = Some l \<longrightarrow> d \<notin> set l) \<Longrightarrow>
   (\<forall>x<length (heap s). live (heap s ! x) \<longrightarrow> d \<in> set (deps (heap s ! x)) \<longrightarrow> all_supplied s h x) \<Longrightarrow>
   all_supplied s h d"

text \<open>The invariant of the release loop during \<open>SubmitHash h\<close> called on \<open>s\<close>.\<close>

definition call_inv ::
  "('w::len) OrphanBlocksContainer \<Rightarrow> uint256 \<Rightarrow> obc_dep_ptr list \<Rightarrow> Block list
     \<Rightarrow> 'w OrphanBlocksContainer \<Rightarrow> bool" where
  "call_inv s h stk res t \<longleftrightarrow>
     exact_inv stk t \<and>
     lose_ends t = (lose_ends s)(h := None) \<and>
     length (heap t) = length (heap s) \<and>
     (\<forall>i. deps (heap t ! i) = deps (heap s ! i) \<and> block (heap t ! i) = block (heap s ! i)) \<and>
     (\<forall>i<length (heap s). live (heap t ! i) \<longrightarrow> live (heap s ! i)) \<and>
     (\<forall>i<length (heap s). live (heap s ! i) \<and> \<not> live (heap t ! i) \<longrightarrow> all_supplied s h i) \<and>
     set res = {block (heap s ! i) | i. i < length (heap s) \<and> live (heap s ! i) \<and> \<not> live (heap t ! i)}"

section \<open>The orphan block container: proofs\<close>

subsection \<open>Facts about the counter\<close>

lemma pow8: "3 \<le> LENGTH('w::len) \<Longrightarrow> (8::nat) \<le> 2 ^ LENGTH('w)"
proof -
  assume "3 \<le> LENGTH('w)"
  then have "(2::nat) ^ 3 \<le> 2 ^ LENGTH('w)" by (rule power_increasing) simp
  then show ?thesis by simp
qed

lemma unat_dec:
  "unat (n - 1 :: ('w::len) word) = (if unat n = 0 then 2 ^ LENGTH('w) - 1 else unat n - 1)"
proof (cases "n = 0")
  case True
  have "unat (- 1 :: 'w word) = 2 ^ LENGTH('w) - 1"
    by (simp add: unsigned_minus_1_eq_mask mask_eq_exp_minus_1)
  with True show ?thesis by simp
next
  case False
  then have "unat n \<noteq> 0" by (simp add: unat_eq_0)
  with False show ?thesis by (simp add: unat_minus_one)
qed

lemma allowance_dec:
  assumes "3 \<le> LENGTH('w::len)" and "1 \<le> allowance (n :: 'w word)"
  shows "allowance n \<le> allowance (n - 1) + 1"
  using pow8[OF assms(1)] assms(2) unsigned_less[of n, where ?'a=nat]
  by (auto simp: allowance_def unat_dec split: if_splits)

lemma live_dec:
  assumes "3 \<le> LENGTH('w::len)" and "1 \<le> allowance (ndeps (e :: 'w obc_dep))"
    and "ndeps e - 1 \<noteq> 0"
  shows "live (e\<lparr>ndeps := ndeps e - 1\<rparr>) = live e"
proof -
  from assms(3) have "unat (ndeps e - 1) \<noteq> 0" by (simp add: unat_eq_0)
  then show ?thesis
    using pow8[OF assms(1)] assms(2) unsigned_less[of "ndeps e", where ?'a=nat]
    by (auto simp: live_def allowance_def unat_dec split: if_splits)
qed

lemma live_release:
  assumes "ndeps (e :: ('w::len) obc_dep) - 1 = 0"
  shows "live e" and "\<not> live (e\<lparr>ndeps := ndeps e - 1\<rparr>)"
proof -
  from assms have "ndeps e = 1" by simp
  then show "live e" by (simp add: live_def)
  from assms show "\<not> live (e\<lparr>ndeps := ndeps e - 1\<rparr>)" by (simp add: live_def)
qed

lemma not_live_zero: "ndeps e = 0 \<Longrightarrow> dep_notifies e = {#}"
  by (simp add: dep_notifies_def live_def)

lemma allowance_zero: "allowance (0 :: ('w::len) word) = 2"
  by (simp add: allowance_def)

lemma live_one: "ndeps e = 1 \<Longrightarrow> live e"
  by (simp add: live_def)

lemma unat_of_nat_small:
  assumes "3 \<le> LENGTH('w::len)" and "n \<le> 3"
  shows "unat (of_nat n :: 'w word) = n"
proof -
  from pow8[OF assms(1)] assms(2) have "n < 2 ^ LENGTH('w)" by simp
  then show ?thesis by (simp add: unat_of_nat take_bit_nat_eq_self)
qed

subsection \<open>Counting pending notifications\<close>

lemma sum_list_map_update:
  fixes f :: "'a \<Rightarrow> 'b::comm_monoid_add"
  shows "i < length xs \<Longrightarrow>
    sum_list (map f (xs[i := v])) + f (xs ! i) = sum_list (map f xs) + f v"
proof (induction xs arbitrary: i)
  case Nil
  then show ?case by simp
next
  case (Cons a xs)
  show ?case
  proof (cases i)
    case 0
    then show ?thesis by (simp add: ac_simps)
  next
    case (Suc j)
    with Cons.prems have "j < length xs" by simp
    from Cons.IH[OF this] Suc show ?thesis by (simp add: ac_simps)
  qed
qed

lemma waiting_in_deps_update:
  "i < length es \<Longrightarrow>
   waiting_in_deps (es[i := v]) + dep_notifies (es ! i) = waiting_in_deps es + dep_notifies v"
  unfolding waiting_in_deps_def by (rule sum_list_map_update)

lemma waiting_in_deps_snoc:
  "waiting_in_deps (es @ [e]) = waiting_in_deps es + dep_notifies e"
  by (simp add: waiting_in_deps_def)

lemma waiting_in_lose_ends_upd:
  assumes "finite (dom le)"
  shows "waiting_in_lose_ends (le(h \<mapsto> l')) + mset (case le h of None \<Rightarrow> [] | Some l \<Rightarrow> l)
           = waiting_in_lose_ends le + mset l'"
proof -
  let ?g = "\<lambda>k. mset (the (le k))"
  let ?g' = "\<lambda>k. mset (the ((le(h \<mapsto> l')) k))"
  have fin: "finite (dom le - {h})" using assms by simp
  have same: "sum ?g' (dom le - {h}) = sum ?g (dom le - {h})"
    by (rule sum.cong) auto
  have new: "waiting_in_lose_ends (le(h \<mapsto> l')) = mset l' + sum ?g (dom le - {h})"
    using assms same by (simp add: waiting_in_lose_ends_def sum.insert_remove)
  show ?thesis
  proof (cases "le h")
    case None
    then have "dom le - {h} = dom le" by auto
    with new None show ?thesis by (simp add: waiting_in_lose_ends_def)
  next
    case (Some l)
    then have "h \<in> dom le" by auto
    with assms have "sum ?g (dom le) = ?g h + sum ?g (dom le - {h})"
      by (simp add: sum.remove)
    with new Some show ?thesis by (simp add: waiting_in_lose_ends_def)
  qed
qed

lemma waiting_in_lose_ends_erase:
  assumes "finite (dom le)" and "le h = Some l"
  shows "waiting_in_lose_ends (le(h := None)) + mset l = waiting_in_lose_ends le"
proof -
  let ?g = "\<lambda>k. mset (the (le k))"
  let ?g' = "\<lambda>k. mset (the ((le(h := None)) k))"
  have same: "sum ?g' (dom le - {h}) = sum ?g (dom le - {h})"
    by (rule sum.cong) auto
  from assms(2) have "h \<in> dom le" by auto
  with assms(1) have "sum ?g (dom le) = ?g h + sum ?g (dom le - {h})"
    by (simp add: sum.remove)
  with same assms(2) show ?thesis by (simp add: waiting_in_lose_ends_def)
qed

lemma mset_only: "set xs \<subseteq> {d} \<Longrightarrow> mset xs = replicate_mset (length xs) d"
  by (induction xs) auto

subsection \<open>One pass of the release loop\<close>

lemma release_step_notifications:
  assumes L: "3 \<le> LENGTH('w::len)"
    and c: "c < length (heap (s :: 'w OrphanBlocksContainer))"
    and a: "1 \<le> allowance (ndeps (heap s ! c))"
    and R: "release_step c stk res s = (stk', res', s')"
  shows "notifications stk' s' + {#c#} = notifications (c # stk) s"
    and "loop_measure stk' s' < loop_measure (c # stk) s"
    and "heap s' = (heap s)[c := (heap s ! c)\<lparr>ndeps := ndeps (heap s ! c) - 1\<rparr>]"
    and "lose_ends s' = lose_ends s"
proof -
  let ?e = "heap s ! c"
  let ?e' = "?e\<lparr>ndeps := ndeps ?e - 1\<rparr>"
  have upd: "waiting_in_deps ((heap s)[c := ?e']) + dep_notifies ?e
               = waiting_in_deps (heap s) + dep_notifies ?e'"
    using c by (rule waiting_in_deps_update)
  show hp: "heap s' = (heap s)[c := ?e']" and le: "lose_ends s' = lose_ends s"
    using R by (auto simp: release_step_def Let_def split: if_splits)
  show "notifications stk' s' + {#c#} = notifications (c # stk) s"
  proof (cases "ndeps ?e - 1 = 0")
    case True
    from live_release[OF True] have "dep_notifies ?e = mset (deps ?e)" "dep_notifies ?e' = {#}"
      by (simp_all add: dep_notifies_def)
    with upd have "waiting_in_deps (heap s') + mset (deps ?e) = waiting_in_deps (heap s)"
      using hp by simp
    moreover from True R have "stk' = rev (deps ?e) @ stk"
      by (auto simp: release_step_def Let_def)
    ultimately show ?thesis
      using le by (simp add: notifications_def ac_simps)
  next
    case False
    from live_dec[OF L a False] have "dep_notifies ?e' = dep_notifies ?e"
      by (simp add: dep_notifies_def)
    with upd have "waiting_in_deps (heap s') = waiting_in_deps (heap s)"
      using hp by simp
    moreover from False R have "stk' = stk"
      by (auto simp: release_step_def Let_def word_gt_0)
    ultimately show ?thesis
      using le by (simp add: notifications_def)
  qed
  show "loop_measure stk' s' < loop_measure (c # stk) s"
  proof (cases "ndeps ?e - 1 = 0")
    case True
    from live_release[OF True] have "dep_notifies ?e = mset (deps ?e)" "dep_notifies ?e' = {#}"
      by (simp_all add: dep_notifies_def)
    with upd have "waiting_in_deps (heap s') + mset (deps ?e) = waiting_in_deps (heap s)"
      using hp by simp
    then have "size (waiting_in_deps (heap s')) + length (deps ?e) = size (waiting_in_deps (heap s))"
      by (metis size_union size_mset)
    moreover from True R have "stk' = rev (deps ?e) @ stk"
      by (auto simp: release_step_def Let_def)
    ultimately show ?thesis by (simp add: loop_measure_def)
  next
    case False
    from live_dec[OF L a False] have "dep_notifies ?e' = dep_notifies ?e"
      by (simp add: dep_notifies_def)
    with upd have "waiting_in_deps (heap s') = waiting_in_deps (heap s)"
      using hp by simp
    moreover from False R have "stk' = stk"
      by (auto simp: release_step_def Let_def word_gt_0)
    ultimately show ?thesis by (simp add: loop_measure_def)
  qed
qed

lemma release_step_inv:
  assumes L: "3 \<le> LENGTH('w::len)"
    and I: "obc_inv (c # stk) (s :: 'w OrphanBlocksContainer)"
    and R: "release_step c stk res s = (stk', res', s')"
  shows "obc_inv stk' s'" and "loop_measure stk' s' < loop_measure (c # stk) s"
proof -
  have cin: "c \<in># notifications (c # stk) s" by (simp add: notifications_def)
  with I have c: "c < length (heap s)" by (simp add: obc_inv_def)
  from cin have "1 \<le> count (notifications (c # stk) s) c" by simp
  also from I have "\<dots> \<le> allowance (ndeps (heap s ! c))" by (simp add: obc_inv_def)
  finally have a: "1 \<le> allowance (ndeps (heap s ! c))" .
  note N = release_step_notifications[OF L c a R]
  show "loop_measure stk' s' < loop_measure (c # stk) s" by (rule N(2))
  have len: "length (heap s') = length (heap s)" using N(3) by simp
  have fin: "finite (dom (lose_ends s'))" using I N(4) by (simp add: obc_inv_def)
  have sub: "\<forall>d\<in>#notifications stk' s'. d < length (heap s')"
  proof
    fix d assume "d \<in># notifications stk' s'"
    then have "d \<in># notifications (c # stk) s" using N(1) by (metis union_iff)
    with I len show "d < length (heap s')" by (simp add: obc_inv_def)
  qed
  have cnt: "\<forall>d. count (notifications stk' s') d \<le> allowance (ndeps (heap s' ! d))"
  proof
    fix d
    from I have le: "count (notifications (c # stk) s) d \<le> allowance (ndeps (heap s ! d))"
      by (simp add: obc_inv_def)
    have eq: "count (notifications stk' s') d + (if d = c then 1 else 0)
                = count (notifications (c # stk) s) d"
      using arg_cong[OF N(1), of "\<lambda>M. count M d"] by (auto split: if_splits)
    show "count (notifications stk' s') d \<le> allowance (ndeps (heap s' ! d))"
    proof (cases "d = c")
      case True
      with N(3) c have "ndeps (heap s' ! d) = ndeps (heap s ! c) - 1" by simp
      with allowance_dec[OF L a] le eq True show ?thesis by simp
    next
      case False
      with N(3) have "heap s' ! d = heap s ! d" by simp
      with le eq False show ?thesis by simp
    qed
  qed
  from fin sub cnt show "obc_inv stk' s'" by (simp add: obc_inv_def)
qed

lemma release_step_effect:
  assumes L: "3 \<le> LENGTH('w::len)"
    and I: "obc_inv (c # stk) (t :: 'w OrphanBlocksContainer)"
    and R: "release_step c stk res t = (stk', res', t')"
  shows "c < length (heap t)"
    and "heap t' = (heap t)[c := (heap t ! c)\<lparr>ndeps := ndeps (heap t ! c) - 1\<rparr>]"
    and "ndeps (heap t ! c) = 1 \<Longrightarrow>
           stk' = rev (deps (heap t ! c)) @ stk \<and> res' = res @ [block (heap t ! c)]
           \<and> \<not> live (heap t' ! c)"
    and "ndeps (heap t ! c) \<noteq> 1 \<Longrightarrow>
           stk' = stk \<and> res' = res \<and> live (heap t' ! c) = live (heap t ! c)"
proof -
  have cin: "c \<in># notifications (c # stk) t" by (simp add: notifications_def)
  with I show c: "c < length (heap t)" by (simp add: obc_inv_def)
  from cin have "1 \<le> count (notifications (c # stk) t) c" by simp
  also from I have "\<dots> \<le> allowance (ndeps (heap t ! c))" by (simp add: obc_inv_def)
  finally have a: "1 \<le> allowance (ndeps (heap t ! c))" .
  let ?e = "heap t ! c"
  let ?e' = "?e\<lparr>ndeps := ndeps ?e - 1\<rparr>"
  show hp: "heap t' = (heap t)[c := ?e']"
    using R by (auto simp: release_step_def Let_def split: if_splits)
  then have e': "heap t' ! c = ?e'" using c by simp
  show "stk' = rev (deps ?e) @ stk \<and> res' = res @ [block ?e] \<and> \<not> live (heap t' ! c)"
    if "ndeps ?e = 1"
  proof -
    from that have z: "ndeps ?e - 1 = 0" by simp
    with R have "stk' = rev (deps ?e) @ stk" "res' = res @ [block ?e]"
      by (auto simp: release_step_def Let_def)
    with live_release(2)[OF z] e' show ?thesis by simp
  qed
  show "stk' = stk \<and> res' = res \<and> live (heap t' ! c) = live ?e" if "ndeps ?e \<noteq> 1"
  proof -
    from that have nz: "ndeps ?e - 1 \<noteq> 0" by simp
    with R have "stk' = stk" "res' = res"
      by (auto simp: release_step_def Let_def word_gt_0)
    with live_dec[OF L a nz] e' show ?thesis by simp
  qed
qed

subsection \<open>The release loop returns\<close>

lemma release_loop_rule:
  assumes L: "3 \<le> LENGTH('w::len)"
    and I: "obc_inv stk (s :: 'w OrphanBlocksContainer)"
    and P: "P stk res s"
    and step: "\<And>c stk res s stk' res' s'.
       obc_inv (c # stk) s \<Longrightarrow> P (c # stk) res s \<Longrightarrow>
       release_step c stk res s = (stk', res', s') \<Longrightarrow> P stk' res' s'"
  shows "\<exists>res' s'. release_loop stk res s = Some (res', s') \<and> obc_inv [] s' \<and> P [] res' s'"
  using I P
proof (induction "loop_measure stk s" arbitrary: stk res s rule: less_induct)
  case less
  show ?case
  proof (cases stk)
    case Nil
    with less.prems show ?thesis by (simp add: release_loop.simps)
  next
    case (Cons c rest)
    obtain stk' res' s' where R: "release_step c rest res s = (stk', res', s')"
      by (cases "release_step c rest res s") auto
    from less.prems(1) Cons have I: "obc_inv (c # rest) s" by simp
    from release_step_inv[OF L I R]
    have I': "obc_inv stk' s'" and m: "loop_measure stk' s' < loop_measure stk s"
      using Cons by simp_all
    from step[OF I _ R] less.prems(2) Cons have P': "P stk' res' s'" by simp
    from less.hyps[OF m I' P'] show ?thesis
      using Cons R by (simp add: release_loop.simps)
  qed
qed

lemma release_loop_partial_aux:
  assumes step: "\<And>c stk res s stk' res' s'.
       Q (c # stk) res s \<Longrightarrow> release_step c stk res s = (stk', res', s') \<Longrightarrow> Q stk' res' s'"
    and run: "release_loop stk0 res0 s0 = Some y0"
  shows "Q stk0 res0 s0 \<longrightarrow> Q [] (fst y0) (snd y0)"
proof (rule release_loop.raw_induct
    [where P = "\<lambda>stk res s y. Q stk res s \<longrightarrow> Q [] (fst y) (snd y)", OF _ run])
  fix f :: "obc_dep_ptr list \<Rightarrow> Block list \<Rightarrow> 'a OrphanBlocksContainer
              \<Rightarrow> (Block list \<times> 'a OrphanBlocksContainer) option"
  fix stack result s y
  assume IH: "\<And>stack result s y. f stack result s = Some y \<Longrightarrow>
                Q stack result s \<longrightarrow> Q [] (fst y) (snd y)"
    and eq: "(case stack of
                [] \<Rightarrow> Some (result, s)
              | cursor # rest \<Rightarrow>
                  (case release_step cursor rest result s of
                     (stack', result', s') \<Rightarrow> f stack' result' s')) = Some y"
  show "Q stack result s \<longrightarrow> Q [] (fst y) (snd y)"
  proof (cases stack)
    case Nil
    with eq have "y = (result, s)" by simp
    with Nil show ?thesis by simp
  next
    case (Cons c rest)
    obtain stk' res' s' where R: "release_step c rest result s = (stk', res', s')"
      by (cases "release_step c rest result s") auto
    with eq Cons have "f stk' res' s' = Some y" by simp
    then have "Q stk' res' s' \<longrightarrow> Q [] (fst y) (snd y)" by (rule IH)
    with step[OF _ R] Cons show ?thesis by simp
  qed
qed

lemma release_loop_partial:
  assumes "release_loop stk res s = Some y" and "Q stk res s"
    and step: "\<And>c stk res s stk' res' s'.
       Q (c # stk) res s \<Longrightarrow> release_step c stk res s = (stk', res', s') \<Longrightarrow> Q stk' res' s'"
  shows "Q [] (fst y) (snd y)"
  using release_loop_partial_aux[of Q, OF step assms(1)] assms(2) by simp

subsection \<open>AddBlock\<close>

lemma common_insert_snd: "snd (common_insert d h c) = set_insert h (snd c)"
  by (cases c) (simp add: common_insert_def split: option.splits)

lemma common_insert_len: "length (heap (fst (common_insert d h c))) = length (heap (fst c))"
  by (cases c) (simp add: common_insert_def split: option.splits)

lemma common_insert_bdm: "block_dep_map (fst (common_insert d h c)) = block_dep_map (fst c)"
  by (cases c) (simp add: common_insert_def split: option.splits)

lemma common_insert_block:
  "block (heap (fst (common_insert d h c)) ! i) = block (heap (fst c) ! i)"
proof (cases c)
  case (Pair t u)
  show ?thesis
  proof (cases "block_dep_map t h")
    case None
    with Pair show ?thesis by (simp add: common_insert_def)
  next
    case (Some it)
    show ?thesis
    proof (cases "it < length (heap t)")
      case True
      with Pair Some show ?thesis by (simp add: common_insert_def nth_list_update)
    next
      case False
      then have "length (heap t) \<le> it" by simp
      with Pair Some show ?thesis by (simp add: common_insert_def list_update_beyond)
    qed
  qed
qed

lemma common_insert_ndeps:
  "ndeps (heap (fst (common_insert d h c)) ! x) = ndeps (heap (fst c) ! x)"
proof (cases c)
  case (Pair t u)
  show ?thesis
  proof (cases "block_dep_map t h")
    case None
    with Pair show ?thesis by (simp add: common_insert_def)
  next
    case (Some it)
    show ?thesis
    proof (cases "it < length (heap t)")
      case True
      with Pair Some show ?thesis by (simp add: common_insert_def nth_list_update)
    next
      case False
      then have "length (heap t) \<le> it" by simp
      with Pair Some show ?thesis by (simp add: common_insert_def list_update_beyond)
    qed
  qed
qed

lemma AddBlock_fold:
  "missing_mask \<noteq> 0 \<Longrightarrow>
   AddBlock blk missing_mask s =
     AddBlock_finish (length (heap s))
       (fold (common_insert (length (heap s))) (selected_parents blk missing_mask) (AddBlock_start blk s))"
  by (simp add: AddBlock_def selected_parents_def AddBlock_finish_def AddBlock_start_def Let_def)

lemma fold_common_insert_len:
  "length (heap (fst (fold (common_insert d) hs c))) = length (heap (fst c))"
  by (induction hs arbitrary: c) (simp_all add: common_insert_len)

lemma fold_common_insert_block:
  "block (heap (fst (fold (common_insert d) hs c)) ! i) = block (heap (fst c) ! i)"
  by (induction hs arbitrary: c) (simp_all add: common_insert_block)

lemma fold_common_insert_ndeps:
  "ndeps (heap (fst (fold (common_insert d) hs c)) ! i) = ndeps (heap (fst c) ! i)"
  by (induction hs arbitrary: c) (simp_all add: common_insert_ndeps)

lemma fold_common_insert_bdm:
  "block_dep_map (fst (fold (common_insert d) hs c)) = block_dep_map (fst c)"
  by (induction hs arbitrary: c) (simp_all add: common_insert_bdm)

lemma fold_common_insert_snd:
  "snd (fold (common_insert d) hs c) = fold set_insert hs (snd c)"
  by (induction hs arbitrary: c) (simp_all add: common_insert_snd)

lemma fold_common_insert_lose_ends:
  "lose_ends (fst (fold (common_insert d) hs c)) h =
     (if h \<in> set hs \<and> block_dep_map (fst c) h = None
      then Some (set_insert d (case lose_ends (fst c) h of None \<Rightarrow> [] | Some l \<Rightarrow> l))
      else lose_ends (fst c) h)"
proof (induction hs arbitrary: c)
  case Nil
  then show ?case by simp
next
  case (Cons a hs)
  have one: "lose_ends (fst (common_insert d a c)) h =
     (if h = a \<and> block_dep_map (fst c) h = None
      then Some (set_insert d (case lose_ends (fst c) h of None \<Rightarrow> [] | Some l \<Rightarrow> l))
      else lose_ends (fst c) h)"
    by (cases c) (auto simp: common_insert_def split: option.splits)
  have idem: "set_insert d (set_insert d l) = set_insert d l" for l :: "obc_dep_ptr list"
    by (simp add: set_insert_def)
  show ?case
    using Cons.IH[of "common_insert d a c"] one
    by (auto simp: common_insert_bdm idem)
qed

lemma AddBlock_heap:
  assumes "missing_mask \<noteq> 0"
  shows "length (heap (AddBlock blk missing_mask s)) = Suc (length (heap s))"
    and "i < length (heap s) \<Longrightarrow> block (heap (AddBlock blk missing_mask s) ! i) = block (heap s ! i)"
    and "i < length (heap s) \<Longrightarrow> ndeps (heap (AddBlock blk missing_mask s) ! i) = ndeps (heap s ! i)"
    and "block (heap (AddBlock blk missing_mask s) ! length (heap s)) = blk"
    and "block_dep_map (AddBlock blk missing_mask s) = (block_dep_map s)(GetHash blk \<mapsto> length (heap s))"
proof -
  let ?d = "length (heap s)"
  let ?c = "fold (common_insert ?d) (selected_parents blk missing_mask) (AddBlock_start blk s)"
  have A: "AddBlock blk missing_mask s = AddBlock_finish ?d ?c"
    by (rule AddBlock_fold[OF assms])
  have len: "length (heap (fst ?c)) = Suc ?d"
    by (simp add: fold_common_insert_len AddBlock_start_def)
  show "length (heap (AddBlock blk missing_mask s)) = Suc ?d"
    using len by (simp add: A AddBlock_finish_def)
  show "block (heap (AddBlock blk missing_mask s) ! i) = block (heap s ! i)" if "i < ?d"
    using that len by (simp add: A AddBlock_finish_def fold_common_insert_block
        AddBlock_start_def nth_append nth_list_update)
  show "ndeps (heap (AddBlock blk missing_mask s) ! i) = ndeps (heap s ! i)" if "i < ?d"
    using that len by (simp add: A AddBlock_finish_def fold_common_insert_ndeps
        AddBlock_start_def nth_append nth_list_update)
  show "block (heap (AddBlock blk missing_mask s) ! ?d) = blk"
    using len by (simp add: A AddBlock_finish_def fold_common_insert_block
        AddBlock_start_def nth_append)
  show "block_dep_map (AddBlock blk missing_mask s) = (block_dep_map s)(GetHash blk \<mapsto> ?d)"
    by (simp add: A AddBlock_finish_def fold_common_insert_bdm AddBlock_start_def)
qed

lemma AddBlock_hashes:
  assumes "missing_mask \<noteq> 0"
  shows "stored_hashes (heap (AddBlock blk missing_mask s))
           = stored_hashes (heap s) @ [GetHash blk]"
proof (rule nth_equalityI)
  show "length (stored_hashes (heap (AddBlock blk missing_mask s)))
          = length (stored_hashes (heap s) @ [GetHash blk])"
    by (simp add: stored_hashes_def AddBlock_heap(1)[OF assms])
next
  fix i assume "i < length (stored_hashes (heap (AddBlock blk missing_mask s)))"
  then have "i < Suc (length (heap s))" by (simp add: stored_hashes_def AddBlock_heap(1)[OF assms])
  then show "stored_hashes (heap (AddBlock blk missing_mask s)) ! i
               = (stored_hashes (heap s) @ [GetHash blk]) ! i"
    by (cases "i = length (heap s)")
      (simp_all add: stored_hashes_def AddBlock_heap[OF assms] nth_append)
qed

lemma length_selected_parents: "length (selected_parents blk missing_mask) \<le> 3"
  by (simp add: selected_parents_def)

lemma set_insert_props:
  "distinct u \<Longrightarrow> distinct (set_insert h u)" "set (set_insert h u) = insert h (set u)"
  by (auto simp: set_insert_def)

lemma fold_set_insert:
  "distinct u \<Longrightarrow> distinct (fold set_insert hs u) \<and> set (fold set_insert hs u) = set u \<union> set hs"
  by (induction hs arbitrary: u) (auto simp: set_insert_props)

subsection \<open>AddBlock keeps the invariant\<close>

lemma adding_inv_start:
  assumes "obc_inv [] (s :: ('w::len) OrphanBlocksContainer)"
  shows "adding_inv (length (heap s)) 0 (AddBlock_start blk s)"
proof -
  let ?s0 = "fst (AddBlock_start blk s :: 'w OrphanBlocksContainer \<times> uint256 list)"
  have N: "notifications [] ?s0 = notifications [] s"
    by (simp add: AddBlock_start_def notifications_def waiting_in_deps_snoc not_live_zero)
  have valid: "\<forall>x\<in>#notifications [] s. x < length (heap s)"
    using assms by (simp add: obc_inv_def)
  then have fresh: "count (notifications [] s) (length (heap s)) = 0"
    by (meson count_eq_zero_iff less_irrefl)
  have old: "count (notifications [] ?s0) x \<le> allowance (ndeps (heap ?s0 ! x))"
    if "x \<noteq> length (heap s)" for x
  proof (cases "x < length (heap s)")
    case True
    then have "heap ?s0 ! x = heap s ! x" by (simp add: AddBlock_start_def nth_append)
    with assms N show ?thesis by (simp add: obc_inv_def)
  next
    case False
    with valid have "count (notifications [] s) x = 0"
      by (meson count_eq_zero_iff)
    with N show ?thesis by simp
  qed
  show ?thesis
    unfolding adding_inv_def
    using assms N valid fresh old
    by (auto simp: obc_inv_def AddBlock_start_def nth_append less_imp_le)
qed

lemma common_insert_effect:
  assumes fin: "finite (dom (lose_ends t))"
    and zero: "ndeps (heap t ! d) = 0"
    and d: "d < length (heap t)"
  shows "\<exists>m j. m + j \<le> 1 \<and>
           notifications [] (fst (common_insert d h (t, u))) = notifications [] t + replicate_mset m d \<and>
           deps (heap (fst (common_insert d h (t, u))) ! d) = deps (heap t ! d) @ replicate j d \<and>
           finite (dom (lose_ends (fst (common_insert d h (t, u)))))"
proof (cases "block_dep_map t h")
  case None
  let ?l = "case lose_ends t h of None \<Rightarrow> [] | Some l \<Rightarrow> l"
  let ?t' = "fst (common_insert d h (t, u))"
  have le': "lose_ends ?t' = (lose_ends t)(h \<mapsto> set_insert d ?l)" and hp: "heap ?t' = heap t"
    using None by (simp_all add: common_insert_def)
  from waiting_in_lose_ends_upd[OF fin, of h "set_insert d ?l"]
  have "waiting_in_lose_ends (lose_ends ?t') + mset ?l
          = waiting_in_lose_ends (lose_ends t) + mset (set_insert d ?l)"
    using le' by simp
  moreover have "mset (set_insert d ?l) = mset ?l + replicate_mset (if d \<in> set ?l then 0 else 1) d"
    by (simp add: set_insert_def)
  ultimately have "waiting_in_lose_ends (lose_ends ?t')
          = waiting_in_lose_ends (lose_ends t) + replicate_mset (if d \<in> set ?l then 0 else 1) d"
    by (simp del: replicate_mset_Suc)
  then have "notifications [] ?t' = notifications [] t + replicate_mset (if d \<in> set ?l then 0 else 1) d"
    using hp by (simp add: notifications_def del: replicate_mset_Suc)
  moreover have "deps (heap ?t' ! d) = deps (heap t ! d) @ replicate 0 d" using hp by simp
  moreover have "finite (dom (lose_ends ?t'))" using fin le' by simp
  moreover have "(if d \<in> set ?l then 0 else 1) + (0::nat) \<le> 1" by simp
  ultimately show ?thesis by blast
next
  case (Some it)
  let ?t' = "fst (common_insert d h (t, u))"
  let ?e = "heap t ! it"
  let ?e' = "?e\<lparr>deps := deps ?e @ [d]\<rparr>"
  have le': "lose_ends ?t' = lose_ends t" and hp: "heap ?t' = (heap t)[it := ?e']"
    using Some by (simp_all add: common_insert_def)
  have fin': "finite (dom (lose_ends ?t'))" using fin le' by simp
  show ?thesis
  proof (cases "it < length (heap t)")
    case False
    then have "heap ?t' = heap t" using hp by (simp add: list_update_beyond)
    then have "notifications [] ?t' = notifications [] t + replicate_mset 0 d"
      and "deps (heap ?t' ! d) = deps (heap t ! d) @ replicate 0 d"
      using le' by (simp_all add: notifications_def)
    with fin' show ?thesis by (metis add_0 zero_le_one)
  next
    case True
    from waiting_in_deps_update[OF True, of ?e']
    have upd: "waiting_in_deps (heap ?t') + dep_notifies ?e = waiting_in_deps (heap t) + dep_notifies ?e'"
      using hp by simp
    show ?thesis
    proof (cases "it = d")
      case True
      with zero have "dep_notifies ?e = {#}" "dep_notifies ?e' = {#}"
        by (simp_all add: not_live_zero)
      with upd have "waiting_in_deps (heap ?t') = waiting_in_deps (heap t)" by simp
      then have "notifications [] ?t' = notifications [] t + replicate_mset 0 d"
        using le' by (simp add: notifications_def)
      moreover have "deps (heap ?t' ! d) = deps (heap t ! d) @ replicate 1 d"
        using hp True d by simp
      ultimately show ?thesis using fin' by (metis add_0 order_refl)
    next
      case False
      have "dep_notifies ?e' = dep_notifies ?e + replicate_mset (if live ?e then 1 else 0) d"
        by (simp add: dep_notifies_def live_def)
      with upd have "waiting_in_deps (heap ?t')
          = waiting_in_deps (heap t) + replicate_mset (if live ?e then 1 else 0) d"
        by (simp del: replicate_mset_Suc)
      then have "notifications [] ?t' = notifications [] t + replicate_mset (if live ?e then 1 else 0) d"
        using le' by (simp add: notifications_def del: replicate_mset_Suc)
      moreover have "deps (heap ?t' ! d) = deps (heap t ! d) @ replicate 0 d"
        using hp False by simp
      moreover have "(if live ?e then 1 else 0) + (0::nat) \<le> 1" by simp
      ultimately show ?thesis using fin' by blast
    qed
  qed
qed

lemma adding_inv_step:
  assumes "adding_inv d k (c :: ('w::len) OrphanBlocksContainer \<times> uint256 list)"
  shows "adding_inv d (Suc k) (common_insert d h c)"
proof (cases c)
  case (Pair t u)
  from assms Pair have fin: "finite (dom (lose_ends t))" and len: "length (heap t) = Suc d"
    and zero: "ndeps (heap t ! d) = 0" and valid: "\<forall>x\<in>#notifications [] t. x \<le> d"
    and old: "\<forall>x. x \<noteq> d \<longrightarrow> count (notifications [] t) x \<le> allowance (ndeps (heap t ! x))"
    and own: "set (deps (heap t ! d)) \<subseteq> {d}"
    and cnt: "count (notifications [] t) d + length (deps (heap t ! d)) \<le> k"
    and u: "length u \<le> k"
    by (simp_all add: adding_inv_def)
  from len have d: "d < length (heap t)" by simp
  let ?t' = "fst (common_insert d h (t, u))"
  from common_insert_effect[OF fin zero d, of h u]
  obtain m j where mj: "m + j \<le> 1"
    and N: "notifications [] ?t' = notifications [] t + replicate_mset m d"
    and D: "deps (heap ?t' ! d) = deps (heap t ! d) @ replicate j d"
    and fin': "finite (dom (lose_ends ?t'))"
    by blast
  have nd: "ndeps (heap ?t' ! x) = ndeps (heap t ! x)" for x
    using common_insert_ndeps[of d h "(t, u)" x] by simp
  have len': "length (heap ?t') = Suc d"
    using common_insert_len[of d h "(t, u)"] len by simp
  have u': "snd (common_insert d h (t, u)) = set_insert h u"
    using common_insert_snd[of d h "(t, u)"] by simp
  have "length (set_insert h u) \<le> Suc k" "set_insert h u \<noteq> []"
    using u by (auto simp: set_insert_def)
  moreover have "\<forall>x\<in>#notifications [] ?t'. x \<le> d"
    using valid N by (auto split: if_splits)
  moreover have "\<forall>x. x \<noteq> d \<longrightarrow> count (notifications [] ?t') x \<le> allowance (ndeps (heap ?t' ! x))"
    using old N nd by simp
  moreover have "count (notifications [] ?t') d + length (deps (heap ?t' ! d)) \<le> Suc k"
    using cnt N D mj by simp
  moreover have "set (deps (heap ?t' ! d)) \<subseteq> {d}"
    using own D by auto
  ultimately show ?thesis
    unfolding adding_inv_def using Pair fin' len' zero nd u' by simp
qed

lemma adding_inv_fold:
  "adding_inv d k c \<Longrightarrow> adding_inv d (k + length hs) (fold (common_insert d) hs c)"
proof (induction hs arbitrary: k c)
  case Nil
  then show ?case by simp
next
  case (Cons h hs)
  from Cons.IH[OF adding_inv_step[OF Cons.prems, of h]] show ?case by simp
qed

lemma adding_inv_finish:
  assumes L: "3 \<le> LENGTH('w::len)"
    and A: "adding_inv d k (c :: 'w OrphanBlocksContainer \<times> uint256 list)"
    and k: "k \<le> 3"
  shows "obc_inv [] (AddBlock_finish d c)"
proof -
  let ?t = "fst c"
  let ?n = "length (snd c)"
  let ?e = "heap ?t ! d"
  let ?e' = "?e\<lparr>ndeps := of_nat ?n\<rparr>"
  let ?t' = "AddBlock_finish d c"
  from A have fin: "finite (dom (lose_ends ?t))" and len: "length (heap ?t) = Suc d"
    and zero: "ndeps ?e = 0" and valid: "\<forall>x\<in>#notifications [] ?t. x \<le> d"
    and old: "\<forall>x. x \<noteq> d \<longrightarrow> count (notifications [] ?t) x \<le> allowance (ndeps (heap ?t ! x))"
    and own: "set (deps ?e) \<subseteq> {d}"
    and cnt: "count (notifications [] ?t) d + length (deps ?e) \<le> k"
    and u: "?n \<le> k" and ku: "k = 0 \<or> snd c \<noteq> []"
    by (simp_all add: adding_inv_def)
  from len have d: "d < length (heap ?t)" by simp
  have hp: "heap ?t' = (heap ?t)[d := ?e']" and le: "lose_ends ?t' = lose_ends ?t"
    by (simp_all add: AddBlock_finish_def)
  from u k have n3: "?n \<le> 3" by simp
  have un: "unat (ndeps ?e') = ?n" using unat_of_nat_small[OF L n3] by simp
  from waiting_in_deps_update[OF d, of ?e'] zero
  have "waiting_in_deps (heap ?t') = waiting_in_deps (heap ?t) + dep_notifies ?e'"
    using hp by (simp add: not_live_zero)
  then have N: "notifications [] ?t' = notifications [] ?t + dep_notifies ?e'"
    using le by (simp add: notifications_def)
  have DN: "dep_notifies ?e' = replicate_mset (if ?n = 0 then 0 else length (deps ?e)) d"
  proof (cases "snd c")
    case Nil
    with un show ?thesis by (simp add: dep_notifies_def live_def)
  next
    case (Cons a as)
    then have "1 \<le> ?n" by simp
    with un n3 have "live ?e'" by (simp add: live_def)
    with Cons mset_only[OF own] show ?thesis by (simp add: dep_notifies_def)
  qed
  have fin': "finite (dom (lose_ends ?t'))" using fin le by simp
  have valid': "\<forall>x\<in>#notifications [] ?t'. x < length (heap ?t')"
    using valid N DN hp len by (auto split: if_splits simp: less_Suc_eq_le)
  have cnt': "count (notifications [] ?t') x \<le> allowance (ndeps (heap ?t' ! x))" for x
  proof (cases "x = d")
    case False
    then have "count (notifications [] ?t') x = count (notifications [] ?t) x"
      using N DN by simp
    moreover from False have "heap ?t' ! x = heap ?t ! x" using hp by simp
    ultimately show ?thesis using old False by simp
  next
    case True
    have e': "heap ?t' ! d = ?e'" using hp d by simp
    show ?thesis
    proof (cases "?n = 0")
      case True
      with ku have "k = 0" by simp
      with cnt have "count (notifications [] ?t) d = 0" by simp
      with N DN True have "count (notifications [] ?t') d = 0" by simp
      with \<open>x = d\<close> show ?thesis by simp
    next
      case False
      then have "1 \<le> ?n" by (cases "snd c") simp_all
      with un n3 have "allowance (ndeps ?e') = 3" by (simp add: allowance_def)
      moreover from False N DN have "count (notifications [] ?t') d
          = count (notifications [] ?t) d + length (deps ?e)" by simp
      ultimately show ?thesis using cnt k e' \<open>x = d\<close> by simp
    qed
  qed
  from fin' valid' cnt' show ?thesis by (simp add: obc_inv_def)
qed

lemma AddBlock_inv:
  assumes L: "3 \<le> LENGTH('w::len)" and I: "obc_inv [] (s :: 'w OrphanBlocksContainer)"
  shows "obc_inv [] (AddBlock blk missing_mask s)"
proof (cases "missing_mask = 0")
  case True
  with I show ?thesis by (simp add: AddBlock_def)
next
  case False
  from adding_inv_fold[OF adding_inv_start[OF I, of blk], of "selected_parents blk missing_mask"]
  have "adding_inv (length (heap s)) (length (selected_parents blk missing_mask))
          (fold (common_insert (length (heap s))) (selected_parents blk missing_mask)
             (AddBlock_start blk s))"
    by simp
  from adding_inv_finish[OF L this length_selected_parents] show ?thesis
    by (simp add: AddBlock_fold[OF False])
qed

lemma obc_inv_empty: "obc_inv [] obc_empty"
  by (simp add: obc_inv_def obc_empty_def notifications_def waiting_in_lose_ends_def
      waiting_in_deps_def)

subsection \<open>SubmitHash and sequences of calls\<close>

lemma SubmitHash_start_inv:
  assumes "obc_inv [] s" and "lose_ends s hash = Some l"
  shows "obc_inv (rev l) (s\<lparr>lose_ends := (lose_ends s)(hash := None)\<rparr>)"
proof -
  from assms(1) have fin: "finite (dom (lose_ends s))" by (simp add: obc_inv_def)
  from waiting_in_lose_ends_erase[OF fin assms(2)]
  have "notifications (rev l) (s\<lparr>lose_ends := (lose_ends s)(hash := None)\<rparr>) = notifications [] s"
    by (simp add: notifications_def ac_simps)
  with assms(1) fin show ?thesis by (simp add: obc_inv_def)
qed

lemma SubmitHash_obc_inv:
  assumes L: "3 \<le> LENGTH('w::len)" and I: "obc_inv [] (s :: 'w OrphanBlocksContainer)"
  shows "\<exists>r s'. SubmitHash hash s = Some (r, s') \<and> obc_inv [] s'"
proof (cases "lose_ends s hash")
  case None
  with I show ?thesis by (simp add: SubmitHash_def)
next
  case (Some l)
  from release_loop_rule[where P = "\<lambda>stk res t. True", OF L SubmitHash_start_inv[OF I Some]]
  obtain res s' where
    "release_loop (rev l) [] (s\<lparr>lose_ends := (lose_ends s)(hash := None)\<rparr>) = Some (res, s')"
    "obc_inv [] s'" by blast
  with Some show ?thesis by (simp add: SubmitHash_def)
qed

lemma run_total:
  assumes L: "3 \<le> LENGTH('w::len)"
  shows "obc_inv [] (s :: 'w OrphanBlocksContainer) \<Longrightarrow>
         \<exists>out s'. run cs s = Some (out, s') \<and> obc_inv [] s'"
proof (induction cs arbitrary: s)
  case Nil
  then show ?case by simp
next
  case (Cons call cs)
  show ?case
  proof (cases call)
    case (Add blk missing_mask)
    from Cons.IH[OF AddBlock_inv[OF L Cons.prems]] Add show ?thesis by simp
  next
    case (Submit hash)
    from SubmitHash_obc_inv[OF L Cons.prems, of hash]
    obtain r s' where S: "SubmitHash hash s = Some (r, s')" and I': "obc_inv [] s'" by blast
    from Cons.IH[OF I'] obtain out s'' where "run cs s' = Some (out, s'')" "obc_inv [] s''"
      by blast
    with S Submit show ?thesis by simp
  qed
qed

lemma run_obc_inv:
  assumes "3 \<le> LENGTH('w::len)" and "run cs (obc_empty :: 'w OrphanBlocksContainer) = Some (out, s)"
  shows "obc_inv [] s"
  using run_total[OF assms(1) obc_inv_empty, of cs] assms(2) by auto

lemma SubmitHash_lose_ends:
  assumes S: "SubmitHash k s = Some (r, s')"
  shows "lose_ends s' = (lose_ends s)(k := None)"
proof (cases "lose_ends s k")
  case None
  with S have "s' = s" by (simp add: SubmitHash_def)
  with None show ?thesis by auto
next
  case (Some l)
  let ?s0 = "s\<lparr>lose_ends := (lose_ends s)(k := None)\<rparr>"
  from Some S obtain res where L: "release_loop (rev l) [] ?s0 = Some (res, s')"
    by (auto simp: SubmitHash_def split: option.splits)
  have step: "\<And>c stk res t stk' res' t'. lose_ends t = lose_ends ?s0 \<Longrightarrow>
      release_step c stk res t = (stk', res', t') \<Longrightarrow> lose_ends t' = lose_ends ?s0"
    by (auto simp: release_step_def Let_def split: if_splits)
  from release_loop_partial[where Q = "\<lambda>stk res t. lose_ends t = lose_ends ?s0", OF L _ step]
  show ?thesis by simp
qed

subsection \<open>Evaluation of the sample calls\<close>

lemmas obc_eval = AddBlock_def common_insert_def set_insert_def SubmitHash_def release_loop.simps
  release_step_def obc_empty_def M_MISSING_def T_MISSING_def P_MISSING_def Let_def
  block_B_def block_C_def block_D_def

subsection \<open>Release by cascade\<close>

lemma fires_ndeps: "fires s h d \<Longrightarrow> ndeps (heap s ! d) = 1"
  by (induction rule: fires.induct) simp_all

lemma fires_released:
  assumes L: "3 \<le> LENGTH('w::len)"
    and le: "lose_ends (s :: 'w OrphanBlocksContainer) h = Some l"
    and I0: "obc_inv (rev l) (s\<lparr>lose_ends := (lose_ends s)(h := None)\<rparr>)"
    and fin: "release_loop (rev l) [] (s\<lparr>lose_ends := (lose_ends s)(h := None)\<rparr>) = Some (res, s')"
  shows "fires s h d \<Longrightarrow> \<not> live (heap s' ! d) \<and> block (heap s ! d) \<in> set res"
proof (induction rule: fires.induct)
  case (direct l' d)
  let ?s0 = "s\<lparr>lose_ends := (lose_ends s)(h := None)\<rparr>"
  let ?b = "block (heap s ! d)"
  let ?P = "\<lambda>stk res (t :: 'w OrphanBlocksContainer). block (heap t ! d) = ?b \<and>
     ((\<not> live (heap t ! d) \<and> ?b \<in> set res) \<or> (ndeps (heap t ! d) = 1 \<and> d \<in> set stk))"
  from direct le have P0: "?P (rev l) [] ?s0" by simp
  have "\<exists>res' t'. release_loop (rev l) [] ?s0 = Some (res', t') \<and> obc_inv [] t' \<and> ?P [] res' t'"
  proof (rule release_loop_rule[where P = ?P, OF L I0 P0])
    fix c stk res t stk' res' t'
    assume I: "obc_inv (c # stk) (t :: 'w OrphanBlocksContainer)" and P: "?P (c # stk) res t"
      and R: "release_step c stk res t = (stk', res', t')"
    note E = release_step_effect[OF L I R]
    show "?P stk' res' t'"
    proof (cases "c = d")
      case True
      show ?thesis
      proof (cases "ndeps (heap t ! c) = 1")
        case one: True
        with E(1,2) E(3)[OF one] P True show ?thesis by simp
      next
        case False
        with P True have "\<not> live (heap t ! d)" "?b \<in> set res" by auto
        with E(1,2) E(4)[OF False] P True show ?thesis by simp
      qed
    next
      case False
      then have same: "heap t' ! d = heap t ! d" using E(2) by simp
      have "set res \<subseteq> set res'" "set stk \<subseteq> set stk'"
        using E(3,4) by (cases "ndeps (heap t ! c) = 1"; auto)+
      with P False same show ?thesis by auto
    qed
  qed
  with fin show ?case by simp
next
  case (cascade x d)
  let ?s0 = "s\<lparr>lose_ends := (lose_ends s)(h := None)\<rparr>"
  let ?b = "block (heap s ! d)"
  let ?D = "deps (heap s ! x)"
  let ?P = "\<lambda>stk res (t :: 'w OrphanBlocksContainer). block (heap t ! d) = ?b \<and>
     deps (heap t ! x) = ?D \<and>
     ((\<not> live (heap t ! d) \<and> ?b \<in> set res)
      \<or> (ndeps (heap t ! d) = 1 \<and> (d \<in> set stk \<or> live (heap t ! x))))"
  from cascade(1) have "live (heap s ! x)" by (simp add: fires_ndeps live_one)
  with cascade have P0: "?P (rev l) [] ?s0" by simp
  have "\<exists>res' t'. release_loop (rev l) [] ?s0 = Some (res', t') \<and> obc_inv [] t' \<and> ?P [] res' t'"
  proof (rule release_loop_rule[where P = ?P, OF L I0 P0])
    fix c stk res t stk' res' t'
    assume I: "obc_inv (c # stk) (t :: 'w OrphanBlocksContainer)" and P: "?P (c # stk) res t"
      and R: "release_step c stk res t = (stk', res', t')"
    note E = release_step_effect[OF L I R]
    have keep: "block (heap t' ! d) = ?b" "deps (heap t' ! x) = ?D"
      using E(1,2) P by (cases "d = c"; cases "x = c"; simp)+
    have mono: "set res \<subseteq> set res'" "set stk \<subseteq> set stk'"
      using E(3,4) by (cases "ndeps (heap t ! c) = 1"; auto)+
    show "?P stk' res' t'"
    proof (cases "c = d")
      case True
      show ?thesis
      proof (cases "ndeps (heap t ! c) = 1")
        case one: True
        with E(1,2) E(3)[OF one] P True keep show ?thesis by simp
      next
        case False
        with P True have "\<not> live (heap t ! d)" "?b \<in> set res" by auto
        with E(1,2) E(4)[OF False] P True keep show ?thesis by simp
      qed
    next
      case nd: False
      then have same: "heap t' ! d = heap t ! d" using E(2) by simp
      show ?thesis
      proof (cases "c = x")
        case False
        then have "heap t' ! x = heap t ! x" using E(2) by simp
        with P nd same mono keep show ?thesis by auto
      next
        case True
        show ?thesis
        proof (cases "ndeps (heap t ! c) = 1")
          case one: True
          from P True have "deps (heap t ! c) = ?D" by simp
          with E(3)[OF one] cascade(2) have "d \<in> set stk'" by simp
          with P nd same mono keep show ?thesis by auto
        next
          case False
          from E(4)[OF False] True have "live (heap t' ! x) = live (heap t ! x)" "stk' = stk" by simp_all
          with P nd same mono keep show ?thesis by auto
        qed
      qed
    qed
  qed
  with fin cascade.IH show ?case by auto
qed

lemma release_step_fields:
  assumes "release_step c stk res t = (stk', res', t')"
  shows "deps (heap t' ! i) = deps (heap t ! i) \<and> block (heap t' ! i) = block (heap t ! i)"
proof -
  let ?e' = "(heap t ! c)\<lparr>ndeps := ndeps (heap t ! c) - 1\<rparr>"
  have hp: "heap t' = (heap t)[c := ?e']"
    using assms by (auto simp: release_step_def Let_def split: if_splits)
  show ?thesis
  proof (cases "c < length (heap t)")
    case True
    show ?thesis
    proof (cases "i = c")
      case True
      with \<open>c < length (heap t)\<close> hp show ?thesis by simp
    next
      case False
      with hp show ?thesis by simp
    qed
  next
    case False
    then have "heap t' = heap t" using hp by (simp add: list_update_beyond)
    then show ?thesis by simp
  qed
qed

lemma released_only_notified:
  assumes le: "lose_ends s h = Some l"
    and fin: "release_loop (rev l) [] (s\<lparr>lose_ends := (lose_ends s)(h := None)\<rparr>) = Some (res, s')"
  shows "\<forall>b\<in>set res. \<exists>d. notified s h d \<and> block (heap s ! d) = b"
proof -
  let ?s0 = "s\<lparr>lose_ends := (lose_ends s)(h := None)\<rparr>"
  let ?Q = "\<lambda>stk res t.
     (\<forall>i. deps (heap t ! i) = deps (heap s ! i) \<and> block (heap t ! i) = block (heap s ! i)) \<and>
     (\<forall>c\<in>set stk. notified s h c) \<and>
     (\<forall>b\<in>set res. \<exists>d. notified s h d \<and> block (heap s ! d) = b)"
  have Q0: "?Q (rev l) [] ?s0" using le by (auto intro: notified.waiting)
  have step: "?Q stk' res' t'"
    if Q: "?Q (c # stk) res t" and R: "release_step c stk res t = (stk', res', t')"
    for c stk res t stk' res' t'
  proof -
    note F = release_step_fields[OF R]
    from Q have c: "notified s h c" by simp
    have "stk' = stk \<and> res' = res
          \<or> stk' = rev (deps (heap t ! c)) @ stk \<and> res' = res @ [block (heap t ! c)]"
      using R by (auto simp: release_step_def Let_def split: if_splits)
    then show ?thesis
    proof
      assume "stk' = stk \<and> res' = res"
      with Q F show ?thesis by simp
    next
      assume A: "stk' = rev (deps (heap t ! c)) @ stk \<and> res' = res @ [block (heap t ! c)]"
      from Q have same: "deps (heap t ! c) = deps (heap s ! c)" "block (heap t ! c) = block (heap s ! c)"
        by simp_all
      have "\<forall>d\<in>set (deps (heap s ! c)). notified s h d"
        using c by (auto intro: notified.dependent)
      with A same Q F c show ?thesis by auto
    qed
  qed
  have "?Q [] (fst (res, s')) (snd (res, s'))"
    using fin Q0
  proof (rule release_loop_partial[where Q = ?Q])
    fix c stk res t stk' res' t'
    assume "?Q (c # stk) res t" and "release_step c stk res t = (stk', res', t')"
    then show "?Q stk' res' t'" by (rule step)
  qed
  then have "\<forall>b\<in>set (fst (res, s')). \<exists>d. notified s h d \<and> block (heap s ! d) = b"
    by (elim conjE)
  then show ?thesis by (simp only: fst_conv)
qed

text \<open>Without any assumption on the calls: from every container that a sequence of \<open>AddBlock\<close> and \<open>SubmitHash\<close>
  calls reaches, \<open>SubmitHash h\<close> returns, and its result holds the block of every object
  that fires: every block with one dependency outstanding that waits in \<open>lose_ends\<close> under
  \<open>h\<close>, and transitively every block with one dependency outstanding that is filed in the
  \<open>deps\<close> of a block released so. Every block in the result belongs to an object that
  the call reaches from \<open>lose_ends\<close> under \<open>h\<close> through \<open>deps\<close>. The call removes the key
  \<open>h\<close> from \<open>lose_ends\<close> and no other: a block filed in \<open>lose_ends\<close> under the hash of an
  orphan stays there when that orphan is released.\<close>

lemma SubmitHash_releases_fired:
  assumes L: "3 \<le> LENGTH('w::len)"
    and run: "run cs (obc_empty :: 'w OrphanBlocksContainer) = Some (out, s)"
    and F: "fires s h d"
  shows "\<exists>res s'. SubmitHash h s = Some (Some res, s') \<and> block (heap s ! d) \<in> set res
           \<and> (\<forall>b\<in>set res. \<exists>x. notified s h x \<and> block (heap s ! x) = b)
           \<and> lose_ends s' = (lose_ends s)(h := None)"
proof -
  have I: "obc_inv [] s" by (rule run_obc_inv[OF L run])
  from F obtain l where le: "lose_ends s h = Some l"
    by (induction rule: fires.induct) auto
  let ?s0 = "s\<lparr>lose_ends := (lose_ends s)(h := None)\<rparr>"
  have I0: "obc_inv (rev l) ?s0" by (rule SubmitHash_start_inv[OF I le])
  from release_loop_rule[where P = "\<lambda>stk res t. True", OF L I0]
  obtain res s' where fin: "release_loop (rev l) [] ?s0 = Some (res, s')" by blast
  then have S: "SubmitHash h s = Some (Some res, s')" using le by (simp add: SubmitHash_def)
  from fires_released[OF L le I0 fin F] have "block (heap s ! d) \<in> set res" by simp
  with S SubmitHash_lose_ends[OF S] released_only_notified[OF le fin] show ?thesis by simp
qed

subsection \<open>Keys of the two maps (C2)\<close>

text \<open>C2 (amended). \<open>AddBlock\<close> creates or extends the \<open>lose_ends\<close> entry of exactly those
  selected parent hashes that are not keys of \<open>block_dep_map\<close> at that moment (the block's
  own entry already stored) and leaves every other entry as it was; \<open>SubmitHash k\<close> removes
  the key \<open>k\<close> and changes no other entry.\<close>

theorem lose_ends_filing:
  "(missing_mask \<noteq> 0 \<longrightarrow>
      lose_ends (AddBlock blk missing_mask s) h =
        (if h \<in> set (selected_parents blk missing_mask)
            \<and> block_dep_map (AddBlock blk missing_mask s) h = None
         then Some (set_insert (length (heap s)) (case lose_ends s h of None \<Rightarrow> [] | Some l \<Rightarrow> l))
         else lose_ends s h))
   \<and> (SubmitHash k s = Some (r, s') \<longrightarrow> lose_ends s' = (lose_ends s)(k := None))"
proof (intro conjI impI)
  assume m: "missing_mask \<noteq> 0"
  show "lose_ends (AddBlock blk missing_mask s) h =
        (if h \<in> set (selected_parents blk missing_mask)
            \<and> block_dep_map (AddBlock blk missing_mask s) h = None
         then Some (set_insert (length (heap s)) (case lose_ends s h of None \<Rightarrow> [] | Some l \<Rightarrow> l))
         else lose_ends s h)"
    by (simp add: AddBlock_fold[OF m] AddBlock_finish_def fold_common_insert_lose_ends
        fold_common_insert_bdm AddBlock_start_def)
next
  assume S: "SubmitHash k s = Some (r, s')"
  then show "lose_ends s' = (lose_ends s)(k := None)" by (rule SubmitHash_lose_ends)
qed

text \<open>C2, witness: C is filed under its missing parent 11, and \<open>SubmitHash 11\<close> removes the
  key.\<close>

theorem lose_ends_filing_witness:
  "P_MISSING \<noteq> 0
   \<and> lose_ends (AddBlock block_C P_MISSING (obc_empty :: 8 OrphanBlocksContainer)) 11 = Some [0]
   \<and> (\<exists>r s'. SubmitHash 11 (AddBlock block_C P_MISSING (obc_empty :: 8 OrphanBlocksContainer))
                = Some (r, s') \<and> lose_ends s' 11 = None)"
proof -
  let ?s = "AddBlock block_C P_MISSING (obc_empty :: 8 OrphanBlocksContainer)"
  have m: "P_MISSING \<noteq> 0" by (simp add: P_MISSING_def)
  have "\<exists>r s'. SubmitHash 11 ?s = Some (r, s')" by (simp add: obc_eval)
  then obtain r s' where S: "SubmitHash 11 ?s = Some (r, s')" by blast
  have e: "SubmitHash 11 (obc_empty :: 8 OrphanBlocksContainer) = Some (None, obc_empty)"
    by (simp add: SubmitHash_def obc_empty_def)
  have sel: "11 \<in> set (selected_parents block_C P_MISSING)"
    by (simp add: selected_parents_def M_MISSING_def T_MISSING_def P_MISSING_def block_C_def)
  have free: "block_dep_map ?s 11 = None" by (simp add: obc_eval)
  from lose_ends_filing [where missing_mask = P_MISSING and blk = block_C
      and s = "obc_empty :: 8 OrphanBlocksContainer" and h = 11 and k = 11 and r = None
      and s' = obc_empty] m e sel free
  have a: "lose_ends ?s 11 = Some [0]" by (simp add: obc_empty_def set_insert_def)
  from lose_ends_filing [where missing_mask = P_MISSING and blk = block_C
      and s = ?s and h = 11 and k = 11 and r = r and s' = s'] S
  have b: "lose_ends s' 11 = None" by simp
  from m a S b show ?thesis by blast
qed

text \<open>C2, counterexample to the claim as stated: C (missing B) is added, then B itself
  arrives as an orphan; B's hash 11 is a key of \<open>lose_ends\<close> and of \<open>block_dep_map\<close>.\<close>

theorem lose_end_also_held:
  "\<not> (lose_ends (AddBlock block_B P_MISSING (AddBlock block_C P_MISSING
          (obc_empty :: 8 OrphanBlocksContainer))) 11 \<noteq> None
      \<longleftrightarrow> block_dep_map (AddBlock block_B P_MISSING (AddBlock block_C P_MISSING
          (obc_empty :: 8 OrphanBlocksContainer))) 11 = None)"
  by (simp add: obc_eval)

subsection \<open>No block is released twice (C3)\<close>

lemma map_update_same: "f v = f (xs ! i) \<Longrightarrow> map f (xs[i := v]) = map f xs"
  by (metis list_update_id map_update)

lemma release_step_released_inv:
  assumes L: "3 \<le> LENGTH('w::len)"
    and I: "obc_inv (c # stk) (s :: 'w OrphanBlocksContainer)"
    and K: "released_inv (out @ res) s"
    and R: "release_step c stk res s = (stk', res', s')"
  shows "released_inv (out @ res') s' \<and>
         stored_hashes (heap s') = stored_hashes (heap s)"
proof -
  have cin: "c \<in># notifications (c # stk) s" by (simp add: notifications_def)
  with I have c: "c < length (heap s)" by (simp add: obc_inv_def)
  from cin have "1 \<le> count (notifications (c # stk) s) c" by simp
  also from I have "\<dots> \<le> allowance (ndeps (heap s ! c))" by (simp add: obc_inv_def)
  finally have a: "1 \<le> allowance (ndeps (heap s ! c))" .
  let ?e = "heap s ! c"
  let ?e' = "?e\<lparr>ndeps := ndeps ?e - 1\<rparr>"
  have hp: "heap s' = (heap s)[c := ?e']"
    using R by (auto simp: release_step_def Let_def split: if_splits)
  have len: "length (heap s') = length (heap s)" using hp by simp
  have blk: "block (heap s' ! i) = block (heap s ! i)" for i
    using hp c by (cases "i = c") simp_all
  have hashes: "stored_hashes (heap s') = stored_hashes (heap s)"
    using hp by (simp add: stored_hashes_def map_update_same)
  from K have dist: "distinct (out @ res)"
    and dh: "distinct (stored_hashes (heap s))"
    and sub: "\<forall>b\<in>set (out @ res). \<exists>i<length (heap s). block (heap s ! i) = b"
    and lv: "\<forall>i<length (heap s). live (heap s ! i) \<longrightarrow> block (heap s ! i) \<notin> set (out @ res)"
    by (simp_all add: released_inv_def)
  show ?thesis
  proof (cases "ndeps ?e - 1 = 0")
    case False
    with R have res': "res' = res" by (auto simp: release_step_def Let_def word_gt_0)
    have "live (heap s' ! i) = live (heap s ! i)" if "i < length (heap s)" for i
      using hp that live_dec[OF L a False] by (cases "i = c") simp_all
    with dist dh sub lv res' len blk hashes show ?thesis
      by (simp add: released_inv_def)
  next
    case True
    with R have res': "res' = res @ [block ?e]" by (auto simp: release_step_def Let_def)
    from live_release[OF True] have le: "live ?e" and nle: "\<not> live ?e'" by simp_all
    from lv c le have fresh: "block ?e \<notin> set (out @ res)" by simp
    have lv': "block (heap s' ! i) \<notin> set (out @ res')" if i: "i < length (heap s')" and l: "live (heap s' ! i)" for i
    proof -
      from l nle hp c have ic: "i \<noteq> c" by auto
      with hp have same: "heap s' ! i = heap s ! i" by simp
      with lv i l len have "block (heap s ! i) \<notin> set (out @ res)" by simp
      moreover from dh ic i c len have "stored_hashes (heap s) ! i \<noteq> stored_hashes (heap s) ! c"
        by (simp add: stored_hashes_def distinct_conv_nth)
      with i c len have "block (heap s ! i) \<noteq> block ?e" by (auto simp: stored_hashes_def)
      ultimately show ?thesis using res' same by simp
    qed
    have sub': "\<forall>b\<in>set (out @ res'). \<exists>i<length (heap s'). block (heap s' ! i) = b"
      using sub res' c len blk by auto
    from dist fresh res' dh hashes sub' lv' show ?thesis
      by (simp add: released_inv_def)
  qed
qed

lemma AddBlock_released_inv:
  assumes m: "missing_mask \<noteq> 0"
    and K: "released_inv out (s :: ('w::len) OrphanBlocksContainer)"
    and fresh: "GetHash blk \<notin> set (stored_hashes (heap s))"
  shows "released_inv out (AddBlock blk missing_mask s)"
proof -
  let ?s' = "AddBlock blk missing_mask s"
  note H = AddBlock_heap[OF m, where blk = blk and s = s]
  from K have dist: "distinct out"
    and dh: "distinct (stored_hashes (heap s))"
    and sub: "\<forall>b\<in>set out. \<exists>i<length (heap s). block (heap s ! i) = b"
    and lv: "\<forall>i<length (heap s). live (heap s ! i) \<longrightarrow> block (heap s ! i) \<notin> set out"
    by (simp_all add: released_inv_def)
  have dh': "distinct (stored_hashes (heap ?s'))"
    using dh fresh by (simp add: AddBlock_hashes[OF m])
  have sub': "\<forall>b\<in>set out. \<exists>i<length (heap ?s'). block (heap ?s' ! i) = b"
  proof
    fix b assume "b \<in> set out"
    with sub obtain i where "i < length (heap s)" "block (heap s ! i) = b" by blast
    then have "i < length (heap ?s')" "block (heap ?s' ! i) = b" using H(1,2) by simp_all
    then show "\<exists>i<length (heap ?s'). block (heap ?s' ! i) = b" by blast
  qed
  have new: "blk \<notin> set out"
  proof
    assume "blk \<in> set out"
    with sub obtain i where i: "i < length (heap s)" "block (heap s ! i) = blk" by blast
    then have "GetHash blk \<in> set (stored_hashes (heap s))"
      by (auto simp: stored_hashes_def)
    with fresh show False by simp
  qed
  have lv': "block (heap ?s' ! i) \<notin> set out" if "i < length (heap ?s')" "live (heap ?s' ! i)" for i
  proof (cases "i < length (heap s)")
    case True
    with that(2) H(3)[OF True] have "live (heap s ! i)" by (simp add: live_def)
    with lv True H(2)[OF True] show ?thesis by simp
  next
    case False
    with that(1) H(1) have "i = length (heap s)" by simp
    with new H(4) show ?thesis by simp
  qed
  from dist dh' sub' lv' show ?thesis by (simp add: released_inv_def)
qed

lemma SubmitHash_released_inv:
  assumes L: "3 \<le> LENGTH('w::len)"
    and I: "obc_inv [] (s :: 'w OrphanBlocksContainer)"
    and K: "released_inv out s"
  shows "\<exists>r s'. SubmitHash hash s = Some (r, s') \<and> obc_inv [] s' \<and>
           released_inv (out @ (case r of None \<Rightarrow> [] | Some bs \<Rightarrow> bs)) s' \<and>
           stored_hashes (heap s') = stored_hashes (heap s)"
proof (cases "lose_ends s hash")
  case None
  with I K show ?thesis by (simp add: SubmitHash_def)
next
  case (Some l)
  let ?s0 = "s\<lparr>lose_ends := (lose_ends s)(hash := None)\<rparr>"
  let ?P = "\<lambda>(stk :: obc_dep_ptr list) res (t :: 'w OrphanBlocksContainer).
     released_inv (out @ res) t \<and>
     stored_hashes (heap t) = stored_hashes (heap s)"
  have I0: "obc_inv (rev l) ?s0" by (rule SubmitHash_start_inv[OF I Some])
  have P0: "?P (rev l) [] ?s0" using K by (simp add: released_inv_def)
  have "\<exists>res' s'. release_loop (rev l) [] ?s0 = Some (res', s') \<and> obc_inv [] s' \<and> ?P [] res' s'"
  proof (rule release_loop_rule[where P = ?P, OF L I0 P0])
    fix c stk res t stk' res' t'
    assume "obc_inv (c # stk) (t :: 'w OrphanBlocksContainer)" "?P (c # stk) res t"
      "release_step c stk res t = (stk', res', t')"
    with release_step_released_inv[OF L, of c stk t out res stk' res' t']
    show "?P stk' res' t'" by simp
  qed
  then obtain res' s' where "release_loop (rev l) [] ?s0 = Some (res', s')" "obc_inv [] s'"
    "?P [] res' s'" by blast
  with Some show ?thesis by (simp add: SubmitHash_def)
qed

lemma run_released_inv:
  assumes L: "3 \<le> LENGTH('w::len)"
  shows "obc_inv [] (s :: 'w OrphanBlocksContainer) \<Longrightarrow> released_inv out0 s \<Longrightarrow>
         distinct (stored_hashes (heap s) @ added_hashes cs) \<Longrightarrow>
         \<exists>out s'. run cs s = Some (out, s') \<and> obc_inv [] s' \<and> released_inv (out0 @ out) s'"
proof (induction cs arbitrary: s out0)
  case Nil
  then show ?case by simp
next
  case (Cons call cs)
  show ?case
  proof (cases call)
    case (Add blk missing_mask)
    show ?thesis
    proof (cases "missing_mask = 0")
      case True
      with Cons.prems Add have "distinct (stored_hashes (heap s) @ added_hashes cs)"
        by simp
      from Cons.IH[OF Cons.prems(1,2) this] True Add show ?thesis by (simp add: AddBlock_def)
    next
      case False
      from Cons.prems(3) Add False
      have fresh: "GetHash blk \<notin> set (stored_hashes (heap s))"
        and d: "distinct (stored_hashes (heap (AddBlock blk missing_mask s)) @ added_hashes cs)"
        by (auto simp: AddBlock_hashes[OF False])
      from Cons.IH[OF AddBlock_inv[OF L Cons.prems(1)]
          AddBlock_released_inv[OF False Cons.prems(2) fresh] d]
      show ?thesis using Add by simp
    qed
  next
    case (Submit hash)
    from SubmitHash_released_inv[OF L Cons.prems(1,2), of hash]
    obtain r s' where S: "SubmitHash hash s = Some (r, s')" and I': "obc_inv [] s'"
      and K': "released_inv (out0 @ (case r of None \<Rightarrow> [] | Some bs \<Rightarrow> bs)) s'"
      and H: "stored_hashes (heap s') = stored_hashes (heap s)"
      by blast
    from Cons.prems(3) Submit H
    have d: "distinct (stored_hashes (heap s') @ added_hashes cs)" by simp
    from Cons.IH[OF I' K' d] obtain out s'' where "run cs s' = Some (out, s'')"
      "obc_inv [] s''" "released_inv (out0 @ (case r of None \<Rightarrow> [] | Some bs \<Rightarrow> bs) @ out) s''"
      by auto
    with S Submit show ?thesis by simp
  qed
qed

text \<open>C3 (amended). For every sequence of \<open>AddBlock\<close> and \<open>SubmitHash\<close> calls in which no
  block hash is stored by \<open>AddBlock\<close> more than once, every call returns and no block occurs
  twice in the concatenation of all \<open>SubmitHash\<close> results, whatever parent hashes the blocks
  list (duplicates included). The counter is at least three bits wide.\<close>

theorem no_block_released_twice:
  assumes "3 \<le> LENGTH('w::len)" and "distinct (added_hashes cs)"
  shows "\<exists>out s. run cs (obc_empty :: 'w OrphanBlocksContainer) = Some (out, s) \<and> distinct out"
proof -
  have "released_inv [] (obc_empty :: 'w OrphanBlocksContainer)"
    by (simp add: released_inv_def obc_empty_def stored_hashes_def)
  from run_released_inv[OF assms(1) obc_inv_empty this, of cs] assms(2)
  show ?thesis by (auto simp: obc_empty_def released_inv_def stored_hashes_def)
qed

text \<open>C3, witness.\<close>

theorem no_block_released_twice_witness:
  "3 \<le> LENGTH(8)
   \<and> distinct (added_hashes [Add block_B P_MISSING, Add block_C P_MISSING, Submit 10])
   \<and> (\<exists>out s. run [Add block_B P_MISSING, Add block_C P_MISSING, Submit 10]
                 (obc_empty :: 8 OrphanBlocksContainer) = Some (out, s) \<and> distinct out)"
proof -
  have l: "3 \<le> LENGTH(8)" by simp
  have d: "distinct (added_hashes [Add block_B P_MISSING, Add block_C P_MISSING, Submit 10])"
    by (simp add: P_MISSING_def block_B_def block_C_def)
  show ?thesis using l d no_block_released_twice [OF l d] by simp
qed

text \<open>C3, counterexample to the claim as stated: \<open>AddBlock\<close> is called twice for B, the
  second call replaces the entry of \<open>block_dep_map\<close> but both objects wait in \<open>lose_ends\<close>,
  and one \<open>SubmitHash\<close> returns B twice.\<close>

theorem replaced_block_released_twice:
  "map_option fst (run [Add block_B P_MISSING, Add block_B P_MISSING, Submit 10]
      (obc_empty :: 8 OrphanBlocksContainer)) = Some [block_B, block_B]"
  by (simp add: obc_eval)

subsection \<open>SubmitHash without a lose end (C7)\<close>

text \<open>C7. For a hash that is not a key of \<open>lose_ends\<close>, \<open>SubmitHash\<close> returns the empty
  optional and the container, with every stored object, is unchanged.\<close>

theorem SubmitHash_no_lose_end:
  "lose_ends s hash = None \<Longrightarrow> SubmitHash hash s = Some (None, s)"
  by (simp add: SubmitHash_def)

text \<open>C7, witness: B's own hash 11 is no lose end of the container that holds B.\<close>

theorem SubmitHash_no_lose_end_witness:
  "lose_ends (AddBlock block_B P_MISSING (obc_empty :: 8 OrphanBlocksContainer)) 11 = None
   \<and> SubmitHash 11 (AddBlock block_B P_MISSING (obc_empty :: 8 OrphanBlocksContainer))
       = Some (None, AddBlock block_B P_MISSING obc_empty)"
proof -
  have h: "lose_ends (AddBlock block_B P_MISSING (obc_empty :: 8 OrphanBlocksContainer)) 11 = None"
    by (simp add: obc_eval)
  show ?thesis using h SubmitHash_no_lose_end [OF h] by simp
qed

subsection \<open>The counter of a new orphan (C8)\<close>

text \<open>C8. After \<open>AddBlock\<close> with a non-zero mask the new object is stored under the block's
  hash, holds the block, and its counter is the number of distinct hashes among the parents
  the mask selects. The counter is at least two bits wide.\<close>

theorem AddBlock_counts_distinct_parents:
  assumes "missing_mask \<noteq> 0" and "2 \<le> LENGTH('w::len)"
  shows "block_dep_map (AddBlock blk missing_mask (s :: 'w OrphanBlocksContainer)) (GetHash blk)
           = Some (length (heap s))
         \<and> block (heap (AddBlock blk missing_mask s) ! length (heap s)) = blk
         \<and> unat (ndeps (heap (AddBlock blk missing_mask s) ! length (heap s)))
             = card (set (selected_parents blk missing_mask))"
proof -
  let ?d = "length (heap s)"
  let ?hs = "selected_parents blk missing_mask"
  let ?c = "fold (common_insert ?d) ?hs (AddBlock_start blk s :: 'w OrphanBlocksContainer \<times> uint256 list)"
  have len: "length (heap (fst ?c)) = Suc ?d"
    by (simp add: fold_common_insert_len AddBlock_start_def)
  have "snd ?c = fold set_insert ?hs []"
    by (simp add: fold_common_insert_snd AddBlock_start_def)
  with fold_set_insert[of "[]" ?hs] have "distinct (snd ?c)" "set (snd ?c) = set ?hs" by simp_all
  then have n: "length (snd ?c) = card (set ?hs)" by (metis distinct_card)
  have "card (set ?hs) \<le> length ?hs" by (rule card_length)
  with length_selected_parents[of blk missing_mask] have "card (set ?hs) \<le> 3" by simp
  moreover from assms(2) have "(2::nat) ^ 2 \<le> 2 ^ LENGTH('w)" by (rule power_increasing) simp
  ultimately have "card (set ?hs) < 2 ^ LENGTH('w)" by simp
  then have "unat (of_nat (card (set ?hs)) :: 'w word) = card (set ?hs)"
    by (simp add: unat_of_nat take_bit_nat_eq_self)
  with n len have "unat (ndeps (heap (AddBlock blk missing_mask s) ! ?d)) = card (set ?hs)"
    by (simp add: AddBlock_fold[OF assms(1)] AddBlock_finish_def)
  with AddBlock_heap(4,5)[OF assms(1), of blk s] show ?thesis by simp
qed

text \<open>C8, witness: D names hash 11 as milestone and as tip; with both selected its counter
  is 1.\<close>

theorem AddBlock_counts_distinct_parents_witness:
  "M_MISSING OR T_MISSING \<noteq> 0 \<and> 2 \<le> LENGTH(8)
   \<and> GetMilestoneHash block_D = GetTipHash block_D
   \<and> selected_parents block_D (M_MISSING OR T_MISSING) = [11, 11]
   \<and> unat (ndeps (heap (AddBlock block_D (M_MISSING OR T_MISSING)
        (obc_empty :: 8 OrphanBlocksContainer)) ! 0)) = 1"
proof -
  have m: "M_MISSING OR T_MISSING \<noteq> 0" by (simp add: M_MISSING_def T_MISSING_def)
  have l: "2 \<le> LENGTH(8)" by simp
  have s: "selected_parents block_D (M_MISSING OR T_MISSING) = [11, 11]"
    by (simp add: selected_parents_def M_MISSING_def T_MISSING_def P_MISSING_def block_D_def)
  from AddBlock_counts_distinct_parents [OF m l, of block_D obc_empty] m l s
  show ?thesis by (simp add: obc_empty_def block_D_def)
qed

subsection \<open>Exact counters\<close>

lemma allowance_live: "live e \<Longrightarrow> allowance (ndeps e) = 3"
  by (simp add: live_def allowance_def)

lemma exact_inv_obc_inv:
  assumes "exact_inv stk s"
  shows "obc_inv stk s"
proof -
  have "count (notifications stk s) d \<le> allowance (ndeps (heap s ! d))" for d
  proof (cases "d < length (heap s)")
    case True
    with assms have c: "count (notifications stk s) d
        = (if live (heap s ! d) then unat (ndeps (heap s ! d)) else 0)"
      by (simp add: exact_inv_def)
    show ?thesis
    proof (cases "live (heap s ! d)")
      case True
      with c allowance_live[OF True] show ?thesis by (simp add: live_def)
    next
      case False
      with c show ?thesis by simp
    qed
  next
    case False
    with assms have "d \<notin># notifications stk s" by (auto simp: exact_inv_def)
    then have "count (notifications stk s) d = 0" by (simp add: count_eq_zero_iff)
    then show ?thesis by simp
  qed
  with assms show ?thesis by (simp add: obc_inv_def exact_inv_def)
qed

lemma release_step_exact:
  assumes L: "3 \<le> LENGTH('w::len)"
    and X: "exact_inv (c # stk) (t :: 'w OrphanBlocksContainer)"
    and R: "release_step c stk res t = (stk', res', t')"
  shows "exact_inv stk' t'"
proof -
  have I: "obc_inv (c # stk) t" by (rule exact_inv_obc_inv[OF X])
  note E = release_step_effect[OF L I R]
  have cin: "c \<in># notifications (c # stk) t" by (simp add: notifications_def)
  then have pos: "1 \<le> count (notifications (c # stk) t) c" by simp
  also from I have "\<dots> \<le> allowance (ndeps (heap t ! c))" by (simp add: obc_inv_def)
  finally have a: "1 \<le> allowance (ndeps (heap t ! c))" .
  note N = release_step_notifications[OF L E(1) a R]
  from X E(1) have cnt: "count (notifications (c # stk) t) c
        = (if live (heap t ! c) then unat (ndeps (heap t ! c)) else 0)"
    by (simp add: exact_inv_def)
  with pos have lc: "live (heap t ! c)" by (auto split: if_splits)
  with cnt have cnt: "count (notifications (c # stk) t) c = unat (ndeps (heap t ! c))" by simp
  have len: "length (heap t') = length (heap t)" using E(2) by simp
  have e': "heap t' ! c = (heap t ! c)\<lparr>ndeps := ndeps (heap t ! c) - 1\<rparr>"
    using E(1,2) by simp
  have fin: "finite (dom (lose_ends t'))" using X N(4) by (simp add: exact_inv_def)
  have valid: "\<forall>d\<in>#notifications stk' t'. d < length (heap t')"
  proof
    fix d assume "d \<in># notifications stk' t'"
    then have "d \<in># notifications (c # stk) t" using N(1) by (metis union_iff)
    with X len show "d < length (heap t')" by (simp add: exact_inv_def)
  qed
  have eq: "count (notifications stk' t') d + (if d = c then 1 else 0)
              = count (notifications (c # stk) t) d" for d
    using arg_cong[OF N(1), of "\<lambda>M. count M d"] by (auto split: if_splits)
  have exact: "count (notifications stk' t') d
        = (if live (heap t' ! d) then unat (ndeps (heap t' ! d)) else 0)"
    if d: "d < length (heap t')" for d
  proof (cases "d = c")
    case False
    with E(2) have "heap t' ! d = heap t ! d" by simp
    moreover from X d len have "count (notifications (c # stk) t) d
        = (if live (heap t ! d) then unat (ndeps (heap t ! d)) else 0)"
      by (simp add: exact_inv_def)
    ultimately show ?thesis using eq[of d] False by simp
  next
    case True
    show ?thesis
    proof (cases "ndeps (heap t ! c) = 1")
      case one: True
      with E(3)[OF one] cnt eq[of c] True show ?thesis by simp
    next
      case False
      from lc have "ndeps (heap t ! c) \<noteq> 0" by (auto simp: live_def)
      then have "unat (ndeps (heap t ! c) - 1) = unat (ndeps (heap t ! c)) - 1"
        by (rule unat_minus_one)
      with E(4)[OF False] lc cnt eq[of c] True e' show ?thesis by simp
    qed
  qed
  have blk: "block (heap t' ! p) = block (heap t ! p)" for p
    using release_step_fields[OF R, of p] by simp
  have held: "p < length (heap t') \<and> live (heap t' ! p) \<and> GetHash (block (heap t' ! p)) = h"
    if hp: "block_dep_map t' h = Some p" for h p
  proof -
    from R hp have old: "block_dep_map t h = Some p"
      by (auto simp: release_step_def Let_def split: if_splits)
    with X have p: "p < length (heap t)" "live (heap t ! p)" "GetHash (block (heap t ! p)) = h"
      by (simp_all add: exact_inv_def)
    have "live (heap t' ! p)"
    proof (cases "p = c")
      case False
      with E(2) p(2) show ?thesis by simp
    next
      case True
      show ?thesis
      proof (cases "ndeps (heap t ! c) = 1")
        case False
        with E(4)[OF False] lc True show ?thesis by simp
      next
        case one: True
        then have "ndeps (heap t ! c) - 1 = 0" by simp
        with R have "block_dep_map t' (GetHash (block (heap t ! c))) = None"
          by (auto simp: release_step_def Let_def)
        with hp p(3) True show ?thesis by simp
      qed
    qed
    with p len blk show ?thesis by simp
  qed
  from fin valid exact held show ?thesis unfolding exact_inv_def by blast
qed

lemma common_insert_one_lose_end:
  "lose_ends (fst (common_insert d h c)) k =
     (if k = h \<and> block_dep_map (fst c) h = None
      then Some (set_insert d (case lose_ends (fst c) h of None \<Rightarrow> [] | Some l \<Rightarrow> l))
      else lose_ends (fst c) k)"
  by (cases c) (auto simp: common_insert_def split: option.splits)

lemma common_insert_effect_exact:
  assumes fin: "finite (dom (lose_ends t))"
    and zero: "ndeps (heap t ! d) = 0"
    and d: "d < length (heap t)"
    and fresh: "\<forall>l. lose_ends t h = Some l \<longrightarrow> d \<notin> set l"
    and held: "\<forall>p. block_dep_map t h = Some p \<longrightarrow> p = d \<or> (p < length (heap t) \<and> live (heap t ! p))"
  shows "\<exists>m j. m + j = 1 \<and>
           notifications [] (fst (common_insert d h (t, u))) = notifications [] t + replicate_mset m d \<and>
           deps (heap (fst (common_insert d h (t, u))) ! d) = deps (heap t ! d) @ replicate j d"
proof (cases "block_dep_map t h")
  case None
  let ?l = "case lose_ends t h of None \<Rightarrow> [] | Some l \<Rightarrow> l"
  let ?t' = "fst (common_insert d h (t, u))"
  have le': "lose_ends ?t' = (lose_ends t)(h \<mapsto> set_insert d ?l)" and hp: "heap ?t' = heap t"
    using None by (simp_all add: common_insert_def)
  from fresh have nd: "d \<notin> set ?l" by (auto split: option.splits)
  from waiting_in_lose_ends_upd[OF fin, of h "set_insert d ?l"]
  have "waiting_in_lose_ends (lose_ends ?t') + mset ?l
          = waiting_in_lose_ends (lose_ends t) + mset (set_insert d ?l)"
    using le' by simp
  moreover have "mset (set_insert d ?l) = mset ?l + replicate_mset 1 d"
    using nd by (simp add: set_insert_def)
  ultimately have "waiting_in_lose_ends (lose_ends ?t')
          = waiting_in_lose_ends (lose_ends t) + replicate_mset 1 d"
    by (simp del: replicate_mset_Suc)
  then have "notifications [] ?t' = notifications [] t + replicate_mset 1 d"
    using hp by (simp add: notifications_def del: replicate_mset_Suc)
  moreover have "deps (heap ?t' ! d) = deps (heap t ! d) @ replicate 0 d" using hp by simp
  moreover have "(1::nat) + 0 = 1" by simp
  ultimately show ?thesis by blast
next
  case (Some it)
  let ?t' = "fst (common_insert d h (t, u))"
  let ?e = "heap t ! it"
  let ?e' = "?e\<lparr>deps := deps ?e @ [d]\<rparr>"
  have le': "lose_ends ?t' = lose_ends t" and hp: "heap ?t' = (heap t)[it := ?e']"
    using Some by (simp_all add: common_insert_def)
  from held Some have it: "it = d \<or> (it < length (heap t) \<and> live ?e)" by simp
  with d have itl: "it < length (heap t)" by auto
  from waiting_in_deps_update[OF itl, of ?e']
  have upd: "waiting_in_deps (heap ?t') + dep_notifies ?e = waiting_in_deps (heap t) + dep_notifies ?e'"
    using hp by simp
  show ?thesis
  proof (cases "it = d")
    case True
    with zero have "dep_notifies ?e = {#}" "dep_notifies ?e' = {#}"
      by (simp_all add: not_live_zero)
    with upd have "waiting_in_deps (heap ?t') = waiting_in_deps (heap t)" by simp
    then have "notifications [] ?t' = notifications [] t + replicate_mset 0 d"
      using le' by (simp add: notifications_def)
    moreover have "deps (heap ?t' ! d) = deps (heap t ! d) @ replicate 1 d"
      using hp True d by simp
    moreover have "(0::nat) + 1 = 1" by simp
    ultimately show ?thesis by blast
  next
    case False
    with it have lv: "live ?e" by simp
    then have "dep_notifies ?e' = dep_notifies ?e + replicate_mset 1 d"
      by (simp add: dep_notifies_def live_def)
    with upd have "waiting_in_deps (heap ?t') = waiting_in_deps (heap t) + replicate_mset 1 d"
      by (simp del: replicate_mset_Suc)
    then have "notifications [] ?t' = notifications [] t + replicate_mset 1 d"
      using le' by (simp add: notifications_def del: replicate_mset_Suc)
    moreover have "deps (heap ?t' ! d) = deps (heap t ! d) @ replicate 0 d"
      using hp False by simp
    moreover have "(1::nat) + 0 = 1" by simp
    ultimately show ?thesis by blast
  qed
qed

lemma common_insert_live:
  "x \<noteq> d \<Longrightarrow> live (heap (fst (common_insert d h c)) ! x) = live (heap (fst c) ! x)"
  by (simp add: live_def common_insert_ndeps)

lemma adding_exact_step:
  assumes A: "adding_exact d filed (c :: ('w::len) OrphanBlocksContainer \<times> uint256 list)"
    and h: "h \<notin> set filed"
  shows "adding_exact d (filed @ [h]) (common_insert d h c)"
proof (cases c)
  case (Pair t u)
  from A Pair have fin: "finite (dom (lose_ends t))" and len: "length (heap t) = Suc d"
    and zero: "ndeps (heap t ! d) = 0" and valid: "\<forall>x\<in>#notifications [] t. x \<le> d"
    and old: "\<forall>x<d. count (notifications [] t) x
        = (if live (heap t ! x) then unat (ndeps (heap t ! x)) else 0)"
    and own: "set (deps (heap t ! d)) \<subseteq> {d}"
    and cnt: "count (notifications [] t) d + length (deps (heap t ! d)) = length filed"
    and u: "u = filed" and dist: "distinct filed"
    and les: "\<forall>k l. lose_ends t k = Some l \<longrightarrow> d \<in> set l \<longrightarrow> k \<in> set filed"
    and bdm: "\<forall>h p. block_dep_map t h = Some p \<longrightarrow>
        p \<le> d \<and> GetHash (block (heap t ! p)) = h \<and> (p \<noteq> d \<longrightarrow> live (heap t ! p))"
    by (simp_all add: adding_exact_def)
  from len have d: "d < length (heap t)" by simp
  let ?t' = "fst (common_insert d h (t, u))"
  have fresh: "\<forall>l. lose_ends t h = Some l \<longrightarrow> d \<notin> set l" using les h by blast
  have held: "\<forall>p. block_dep_map t h = Some p \<longrightarrow> p = d \<or> (p < length (heap t) \<and> live (heap t ! p))"
    using bdm len by (metis le_imp_less_Suc)
  from common_insert_effect_exact[OF fin zero d fresh held, of u]
  obtain m j where mj: "m + j = 1"
    and N: "notifications [] ?t' = notifications [] t + replicate_mset m d"
    and D: "deps (heap ?t' ! d) = deps (heap t ! d) @ replicate j d"
    by blast
  have nd: "ndeps (heap ?t' ! x) = ndeps (heap t ! x)" for x
    using common_insert_ndeps[of d h "(t, u)" x] by simp
  have lv: "live (heap ?t' ! x) = live (heap t ! x)" for x
    by (simp add: live_def nd)
  have blk: "block (heap ?t' ! x) = block (heap t ! x)" for x
    using common_insert_block[of d h "(t, u)" x] by simp
  have len': "length (heap ?t') = Suc d"
    using common_insert_len[of d h "(t, u)"] len by simp
  have u': "snd (common_insert d h (t, u)) = filed @ [h]"
    using common_insert_snd[of d h "(t, u)"] u h by (simp add: set_insert_def)
  have bdm': "block_dep_map ?t' = block_dep_map t"
    using common_insert_bdm[of d h "(t, u)"] by simp
  have fin': "finite (dom (lose_ends ?t'))"
    using fin common_insert_one_lose_end[of d h "(t, u)"]
    by (cases "block_dep_map t h") (simp_all add: common_insert_def)
  have valid': "\<forall>x\<in>#notifications [] ?t'. x \<le> d"
    using valid N by (auto split: if_splits)
  have old': "\<forall>x<d. count (notifications [] ?t') x
        = (if live (heap ?t' ! x) then unat (ndeps (heap ?t' ! x)) else 0)"
    using old N nd lv by simp
  have cnt': "count (notifications [] ?t') d + length (deps (heap ?t' ! d)) = length (filed @ [h])"
    using cnt N D mj by simp
  have own': "set (deps (heap ?t' ! d)) \<subseteq> {d}" using own D by auto
  have les': "\<forall>k l. lose_ends ?t' k = Some l \<longrightarrow> d \<in> set l \<longrightarrow> k \<in> set (filed @ [h])"
    using les common_insert_one_lose_end[of d h "(t, u)"] by (auto split: if_splits)
  have held': "\<forall>h p. block_dep_map ?t' h = Some p \<longrightarrow>
        p \<le> d \<and> GetHash (block (heap ?t' ! p)) = h \<and> (p \<noteq> d \<longrightarrow> live (heap ?t' ! p))"
    using bdm bdm' blk lv by simp
  from fin' len' valid' old' zero nd own' cnt' u' dist h les' held' Pair
  show ?thesis unfolding adding_exact_def by simp
qed

lemma adding_exact_fold:
  "adding_exact d filed c \<Longrightarrow> distinct (filed @ hs) \<Longrightarrow>
   adding_exact d (filed @ hs) (fold (common_insert d) hs c)"
proof (induction hs arbitrary: filed c)
  case Nil
  then show ?case by simp
next
  case (Cons h hs)
  from Cons.prems(2) have h: "h \<notin> set filed" and d: "distinct ((filed @ [h]) @ hs)" by auto
  from Cons.IH[OF adding_exact_step[OF Cons.prems(1) h] d] show ?case by simp
qed

lemma in_waiting_in_lose_ends:
  assumes "finite (dom le)"
  shows "x \<in># waiting_in_lose_ends le \<longleftrightarrow> (\<exists>k l. le k = Some l \<and> x \<in> set l)"
proof -
  have "x \<in># waiting_in_lose_ends le \<longleftrightarrow> (\<exists>k\<in>dom le. x \<in># mset (the (le k)))"
    unfolding waiting_in_lose_ends_def using assms
    by (induction rule: finite_induct) auto
  also have "\<dots> \<longleftrightarrow> (\<exists>k l. le k = Some l \<and> x \<in> set l)"
  proof
    assume "\<exists>k\<in>dom le. x \<in># mset (the (le k))"
    then obtain k where "k \<in> dom le" "x \<in> set (the (le k))" by auto
    then have "le k = Some (the (le k))" by auto
    with \<open>x \<in> set (the (le k))\<close> show "\<exists>k l. le k = Some l \<and> x \<in> set l" by blast
  next
    assume "\<exists>k l. le k = Some l \<and> x \<in> set l"
    then obtain k l where "le k = Some l" "x \<in> set l" by blast
    then have "k \<in> dom le" "x \<in># mset (the (le k))" by auto
    then show "\<exists>k\<in>dom le. x \<in># mset (the (le k))" by blast
  qed
  finally show ?thesis .
qed

lemma in_waiting_in_deps:
  "x \<in># waiting_in_deps es \<longleftrightarrow> (\<exists>i<length es. live (es ! i) \<and> x \<in> set (deps (es ! i)))"
proof -
  have "x \<in># waiting_in_deps es \<longleftrightarrow> (\<exists>e\<in>set es. live e \<and> x \<in> set (deps e))"
    unfolding waiting_in_deps_def by (induction es) (auto simp: dep_notifies_def)
  also have "\<dots> \<longleftrightarrow> (\<exists>i<length es. live (es ! i) \<and> x \<in> set (deps (es ! i)))"
    by (metis in_set_conv_nth)
  finally show ?thesis .
qed

lemma adding_exact_start:
  assumes X: "exact_inv [] (s :: ('w::len) OrphanBlocksContainer)"
  shows "adding_exact (length (heap s)) [] (AddBlock_start blk s)"
proof -
  let ?d = "length (heap s)"
  let ?s0 = "fst (AddBlock_start blk s :: 'w OrphanBlocksContainer \<times> uint256 list)"
  have fin: "finite (dom (lose_ends s))" using X by (simp add: exact_inv_def)
  have N: "notifications [] ?s0 = notifications [] s"
    by (simp add: AddBlock_start_def notifications_def waiting_in_deps_snoc not_live_zero)
  have valid: "\<forall>x\<in>#notifications [] s. x < ?d"
    using X by (simp add: exact_inv_def)
  then have fresh: "count (notifications [] s) ?d = 0"
    by (meson count_eq_zero_iff less_irrefl)
  have hp: "heap ?s0 = heap s @ [\<lparr>block = blk, ndeps = 0, deps = []\<rparr>]"
    and le: "lose_ends ?s0 = lose_ends s"
    and bd: "block_dep_map ?s0 = (block_dep_map s)(GetHash blk \<mapsto> ?d)"
    by (simp_all add: AddBlock_start_def)
  have old: "\<forall>x<?d. count (notifications [] ?s0) x
        = (if live (heap ?s0 ! x) then unat (ndeps (heap ?s0 ! x)) else 0)"
    using X N hp by (simp add: exact_inv_def nth_append)
  have les: "\<forall>k l. lose_ends ?s0 k = Some l \<longrightarrow> ?d \<in> set l \<longrightarrow> k \<in> set []"
  proof (intro allI impI)
    fix k l assume "lose_ends ?s0 k = Some l" "?d \<in> set l"
    with le fin have "?d \<in># waiting_in_lose_ends (lose_ends s)"
      by (auto simp: in_waiting_in_lose_ends)
    then have "?d \<in># notifications [] s" by (simp add: notifications_def)
    with valid show "k \<in> set []" by auto
  qed
  have held: "\<forall>h p. block_dep_map ?s0 h = Some p \<longrightarrow>
        p \<le> ?d \<and> GetHash (block (heap ?s0 ! p)) = h \<and> (p \<noteq> ?d \<longrightarrow> live (heap ?s0 ! p))"
  proof (intro allI impI)
    fix h p assume hpm: "block_dep_map ?s0 h = Some p"
    show "p \<le> ?d \<and> GetHash (block (heap ?s0 ! p)) = h \<and> (p \<noteq> ?d \<longrightarrow> live (heap ?s0 ! p))"
    proof (cases "h = GetHash blk")
      case True
      with hpm bd have "p = ?d" by simp
      with True hp show ?thesis by simp
    next
      case False
      with hpm bd have "block_dep_map s h = Some p" by simp
      with X have "p < ?d" "live (heap s ! p)" "GetHash (block (heap s ! p)) = h"
        by (simp_all add: exact_inv_def)
      with hp show ?thesis by (simp add: nth_append)
    qed
  qed
  have v0: "\<forall>x\<in>#notifications [] ?s0. x \<le> ?d" using valid N by (auto simp: less_imp_le)
  have "snd (AddBlock_start blk s :: 'w OrphanBlocksContainer \<times> uint256 list) = []"
    by (simp add: AddBlock_start_def)
  with fin le hp v0 old N fresh les held show ?thesis
    unfolding adding_exact_def by simp
qed

lemma adding_exact_finish:
  assumes L: "3 \<le> LENGTH('w::len)"
    and A: "adding_exact d filed (c :: 'w OrphanBlocksContainer \<times> uint256 list)"
    and k: "filed \<noteq> []" "length filed \<le> 3"
  shows "exact_inv [] (AddBlock_finish d c)"
proof -
  let ?t = "fst c"
  let ?e = "heap ?t ! d"
  let ?e' = "?e\<lparr>ndeps := of_nat (length (snd c))\<rparr>"
  let ?t' = "AddBlock_finish d c"
  from A have fin: "finite (dom (lose_ends ?t))" and len: "length (heap ?t) = Suc d"
    and zero: "ndeps ?e = 0" and valid: "\<forall>x\<in>#notifications [] ?t. x \<le> d"
    and old: "\<forall>x<d. count (notifications [] ?t) x
        = (if live (heap ?t ! x) then unat (ndeps (heap ?t ! x)) else 0)"
    and own: "set (deps ?e) \<subseteq> {d}"
    and cnt: "count (notifications [] ?t) d + length (deps ?e) = length filed"
    and u: "snd c = filed"
    and bdm: "\<forall>h p. block_dep_map ?t h = Some p \<longrightarrow>
        p \<le> d \<and> GetHash (block (heap ?t ! p)) = h \<and> (p \<noteq> d \<longrightarrow> live (heap ?t ! p))"
    by (simp_all add: adding_exact_def)
  from len have d: "d < length (heap ?t)" by simp
  have hp: "heap ?t' = (heap ?t)[d := ?e']" and le: "lose_ends ?t' = lose_ends ?t"
    and bd: "block_dep_map ?t' = block_dep_map ?t"
    by (simp_all add: AddBlock_finish_def)
  have un: "unat (ndeps ?e') = length filed" using unat_of_nat_small[OF L k(2)] u by simp
  from k(1) have "1 \<le> length filed" by (cases filed) simp_all
  with un k(2) have lv: "live ?e'" by (simp add: live_def)
  from waiting_in_deps_update[OF d, of ?e'] zero
  have "waiting_in_deps (heap ?t') = waiting_in_deps (heap ?t) + dep_notifies ?e'"
    using hp by (simp add: not_live_zero)
  then have N: "notifications [] ?t' = notifications [] ?t + replicate_mset (length (deps ?e)) d"
    using le lv mset_only[OF own] by (simp add: notifications_def dep_notifies_def)
  have e': "heap ?t' ! d = ?e'" using hp d by simp
  have len': "length (heap ?t') = Suc d" using hp len by simp
  have fin': "finite (dom (lose_ends ?t'))" using fin le by simp
  have valid': "\<forall>x\<in>#notifications [] ?t'. x < length (heap ?t')"
    using valid N len' by (auto split: if_splits simp: less_Suc_eq_le)
  have exact: "count (notifications [] ?t') x
        = (if live (heap ?t' ! x) then unat (ndeps (heap ?t' ! x)) else 0)"
    if "x < length (heap ?t')" for x
  proof (cases "x = d")
    case True
    with N cnt e' lv un show ?thesis by simp
  next
    case False
    with that len' have "x < d" by simp
    moreover from False have "heap ?t' ! x = heap ?t ! x" using hp by simp
    moreover from False N have "count (notifications [] ?t') x = count (notifications [] ?t) x"
      by simp
    ultimately show ?thesis using old by simp
  qed
  have held: "p < length (heap ?t') \<and> live (heap ?t' ! p) \<and> GetHash (block (heap ?t' ! p)) = h"
    if "block_dep_map ?t' h = Some p" for h p
  proof -
    from that bd bdm have p: "p \<le> d" "GetHash (block (heap ?t ! p)) = h"
      "p \<noteq> d \<longrightarrow> live (heap ?t ! p)" by auto
    show ?thesis
    proof (cases "p = d")
      case True
      with p e' lv len' show ?thesis by simp
    next
      case False
      with hp have "heap ?t' ! p = heap ?t ! p" by simp
      with p False len' show ?thesis by simp
    qed
  qed
  from fin' valid' exact held show ?thesis unfolding exact_inv_def by blast
qed

lemma AddBlock_exact:
  assumes L: "3 \<le> LENGTH('w::len)" and X: "exact_inv [] (s :: 'w OrphanBlocksContainer)"
    and m: "missing_mask = 0 \<or>
       (selected_parents blk missing_mask \<noteq> [] \<and> distinct (selected_parents blk missing_mask))"
  shows "exact_inv [] (AddBlock blk missing_mask s)"
proof (cases "missing_mask = 0")
  case True
  with X show ?thesis by (simp add: AddBlock_def)
next
  case False
  with m have ne: "selected_parents blk missing_mask \<noteq> []"
    and dist: "distinct ([] @ selected_parents blk missing_mask)" by simp_all
  from adding_exact_fold[OF adding_exact_start[OF X, of blk] dist]
  have "adding_exact (length (heap s)) (selected_parents blk missing_mask)
          (fold (common_insert (length (heap s))) (selected_parents blk missing_mask)
             (AddBlock_start blk s))"
    by simp
  from adding_exact_finish[OF L this ne length_selected_parents] show ?thesis
    by (simp add: AddBlock_fold[OF False])
qed

lemma exact_inv_empty: "exact_inv [] obc_empty"
  by (simp add: exact_inv_def obc_empty_def notifications_def waiting_in_lose_ends_def
      waiting_in_deps_def)

lemma SubmitHash_start_exact:
  assumes "exact_inv [] s" and "lose_ends s hash = Some l"
  shows "exact_inv (rev l) (s\<lparr>lose_ends := (lose_ends s)(hash := None)\<rparr>)"
proof -
  from assms(1) have fin: "finite (dom (lose_ends s))" by (simp add: exact_inv_def)
  from waiting_in_lose_ends_erase[OF fin assms(2)]
  have "notifications (rev l) (s\<lparr>lose_ends := (lose_ends s)(hash := None)\<rparr>) = notifications [] s"
    by (simp add: notifications_def ac_simps)
  with assms(1) fin show ?thesis by (simp add: exact_inv_def)
qed

lemma SubmitHash_exact:
  assumes L: "3 \<le> LENGTH('w::len)" and X: "exact_inv [] (s :: 'w OrphanBlocksContainer)"
    and S: "SubmitHash hash s = Some (r, s')"
  shows "exact_inv [] s'"
proof (cases "lose_ends s hash")
  case None
  with X S show ?thesis by (simp add: SubmitHash_def)
next
  case (Some l)
  let ?s0 = "s\<lparr>lose_ends := (lose_ends s)(hash := None)\<rparr>"
  have X0: "exact_inv (rev l) ?s0" by (rule SubmitHash_start_exact[OF X Some])
  have "\<exists>res' t'. release_loop (rev l) [] ?s0 = Some (res', t') \<and> obc_inv [] t'
          \<and> exact_inv [] t'"
  proof (rule release_loop_rule[where P = "\<lambda>stk res t. exact_inv stk t",
        OF L exact_inv_obc_inv[OF X0] X0])
    fix c stk res t stk' res' t'
    assume "exact_inv (c # stk) (t :: 'w OrphanBlocksContainer)"
      and "release_step c stk res t = (stk', res', t')"
    then show "exact_inv stk' t'" by (rule release_step_exact[OF L])
  qed
  with S Some show ?thesis by (auto simp: SubmitHash_def)
qed

lemma run_exact:
  assumes L: "3 \<le> LENGTH('w::len)"
  shows "exact_inv [] (s :: 'w OrphanBlocksContainer) \<Longrightarrow> well_masked cs \<Longrightarrow>
         run cs s = Some (out, s') \<Longrightarrow> exact_inv [] s'"
proof (induction cs arbitrary: s out)
  case Nil
  then show ?case by simp
next
  case (Cons call cs)
  show ?case
  proof (cases call)
    case (Add blk missing_mask)
    with Cons.prems have m: "missing_mask = 0 \<or>
       (selected_parents blk missing_mask \<noteq> [] \<and> distinct (selected_parents blk missing_mask))"
      and w: "well_masked cs" and r: "run cs (AddBlock blk missing_mask s) = Some (out, s')"
      by simp_all
    from Cons.IH[OF AddBlock_exact[OF L Cons.prems(1) m] w r] show ?thesis .
  next
    case (Submit hash)
    with Cons.prems(3) obtain r t out' where S: "SubmitHash hash s = Some (r, t)"
      and R: "run cs t = Some (out', s')"
      by (auto split: option.splits)
    from Cons.prems(2) Submit have w: "well_masked cs" by simp
    from Cons.IH[OF SubmitHash_exact[OF L Cons.prems(1) S] w R] show ?thesis .
  qed
qed

subsection \<open>The blocks a call releases (C1)\<close>

lemma release_step_call_inv:
  assumes L: "3 \<le> LENGTH('w::len)"
    and P: "call_inv s h (c # stk) res (t :: 'w OrphanBlocksContainer)"
    and R: "release_step c stk res t = (stk', res', t')"
  shows "call_inv s h stk' res' t'"
proof -
  from P have X: "exact_inv (c # stk) t"
    and le: "lose_ends t = (lose_ends s)(h := None)"
    and len: "length (heap t) = length (heap s)"
    and fld: "\<forall>i. deps (heap t ! i) = deps (heap s ! i) \<and> block (heap t ! i) = block (heap s ! i)"
    and mono: "\<forall>i<length (heap s). live (heap t ! i) \<longrightarrow> live (heap s ! i)"
    and sup: "\<forall>i<length (heap s). live (heap s ! i) \<and> \<not> live (heap t ! i) \<longrightarrow> all_supplied s h i"
    and rs: "set res = {block (heap s ! i) | i. i < length (heap s) \<and> live (heap s ! i) \<and> \<not> live (heap t ! i)}"
    by (simp_all add: call_inv_def)
  have I: "obc_inv (c # stk) t" by (rule exact_inv_obc_inv[OF X])
  note E = release_step_effect[OF L I R]
  have X': "exact_inv stk' t'" by (rule release_step_exact[OF L X R])
  have le': "lose_ends t' = (lose_ends s)(h := None)"
    using R le by (auto simp: release_step_def Let_def split: if_splits)
  have len': "length (heap t') = length (heap s)" using E(2) len by simp
  have fld': "\<forall>i. deps (heap t' ! i) = deps (heap s ! i) \<and> block (heap t' ! i) = block (heap s ! i)"
    using fld release_step_fields[OF R] by simp
  have other: "heap t' ! i = heap t ! i" if "i \<noteq> c" for i using E(2) that by simp
  from E(1) len have cs: "c < length (heap s)" by simp
  have cnt: "count (notifications (c # stk) t) c
        = (if live (heap t ! c) then unat (ndeps (heap t ! c)) else 0)"
    using X E(1) by (simp add: exact_inv_def)
  have "1 \<le> count (notifications (c # stk) t) c" by (simp add: notifications_def)
  with cnt have lc: "live (heap t ! c)" by (auto split: if_splits)
  with mono cs have lsc: "live (heap s ! c)" by simp
  show ?thesis
  proof (cases "ndeps (heap t ! c) = 1")
    case False
    note E4 = E(4)[OF False]
    have same: "live (heap t' ! i) = live (heap t ! i)" for i
      using E4 other[of i] by (cases "i = c") simp_all
    from X' le' len' fld' mono sup rs E4 same show ?thesis by (simp add: call_inv_def)
  next
    case True
    note E3 = E(3)[OF True]
    from cnt lc True have "count (notifications (c # stk) t) c = 1" by simp
    then have nle: "c \<notin># waiting_in_lose_ends (lose_ends t)"
      and ndp: "c \<notin># waiting_in_deps (heap t)"
      by (auto simp: notifications_def count_eq_zero_iff)
    from X have fin: "finite (dom (lose_ends t))" by (simp add: exact_inv_def)
    have s1: "\<forall>k l. k \<noteq> h \<longrightarrow> lose_ends s k = Some l \<longrightarrow> c \<notin> set l"
    proof (intro allI impI)
      fix k l assume "k \<noteq> h" "lose_ends s k = Some l"
      with le have "lose_ends t k = Some l" by simp
      with nle fin show "c \<notin> set l" by (auto simp: in_waiting_in_lose_ends)
    qed
    have s2: "\<forall>x<length (heap s). live (heap s ! x) \<longrightarrow> c \<in> set (deps (heap s ! x))
                \<longrightarrow> all_supplied s h x"
    proof (intro allI impI)
      fix x assume x: "x < length (heap s)" "live (heap s ! x)" "c \<in> set (deps (heap s ! x))"
      from x(3) fld have "c \<in> set (deps (heap t ! x))" by simp
      with ndp x(1) len have "\<not> live (heap t ! x)" by (auto simp: in_waiting_in_deps)
      with sup x show "all_supplied s h x" by simp
    qed
    have supc: "all_supplied s h c" by (rule all_supplied.intros[OF cs lsc s1 s2])
    have mono': "\<forall>i<length (heap s). live (heap t' ! i) \<longrightarrow> live (heap s ! i)"
      using mono E3 other by (metis)
    have sup': "\<forall>i<length (heap s). live (heap s ! i) \<and> \<not> live (heap t' ! i) \<longrightarrow> all_supplied s h i"
      using sup supc other by (metis)
    have "{i. i < length (heap s) \<and> live (heap s ! i) \<and> \<not> live (heap t' ! i)}
            = insert c {i. i < length (heap s) \<and> live (heap s ! i) \<and> \<not> live (heap t ! i)}"
      using cs lsc lc E3 other by (auto; metis)
    then have "{block (heap s ! i) | i. i < length (heap s) \<and> live (heap s ! i) \<and> \<not> live (heap t' ! i)}
            = insert (block (heap s ! c))
                {block (heap s ! i) | i. i < length (heap s) \<and> live (heap s ! i) \<and> \<not> live (heap t ! i)}"
      by (auto; blast)
    moreover from E3 fld have "set res' = insert (block (heap s ! c)) (set res)" by simp
    ultimately have rs': "set res' = {block (heap s ! i) | i. i < length (heap s)
        \<and> live (heap s ! i) \<and> \<not> live (heap t' ! i)}"
      using rs by simp
    from X' le' len' fld' mono' sup' rs' show ?thesis by (simp add: call_inv_def)
  qed
qed

lemma all_supplied_released:
  assumes X: "exact_inv [] (s' :: ('w::len) OrphanBlocksContainer)"
    and le: "lose_ends s' = (lose_ends s)(h := None)"
    and len: "length (heap s') = length (heap s)"
    and fld: "\<forall>i. deps (heap s' ! i) = deps (heap s ! i)"
    and mono: "\<forall>i<length (heap s). live (heap s' ! i) \<longrightarrow> live (heap s ! i)"
  shows "all_supplied s h d \<Longrightarrow> \<not> live (heap s' ! d)"
proof (induction rule: all_supplied.induct)
  case (1 d)
  show ?case
  proof
    assume lv: "live (heap s' ! d)"
    from X 1(1) len have "count (notifications [] s') d = unat (ndeps (heap s' ! d))"
      using lv by (simp add: exact_inv_def)
    with lv have "d \<in># notifications [] s'" by (simp add: live_def count_greater_zero_iff[symmetric])
    then have "d \<in># waiting_in_lose_ends (lose_ends s') \<or> d \<in># waiting_in_deps (heap s')"
      by (simp add: notifications_def)
    then show False
    proof
      assume "d \<in># waiting_in_lose_ends (lose_ends s')"
      moreover from X have "finite (dom (lose_ends s'))" by (simp add: exact_inv_def)
      ultimately obtain k l where kl: "lose_ends s' k = Some l" "d \<in> set l"
        by (auto simp: in_waiting_in_lose_ends)
      with le have "k \<noteq> h" "lose_ends s k = Some l" by (auto split: if_splits)
      with 1(3) kl(2) show False by blast
    next
      assume "d \<in># waiting_in_deps (heap s')"
      then obtain x where x: "x < length (heap s')" "live (heap s' ! x)"
        "d \<in> set (deps (heap s' ! x))" by (auto simp: in_waiting_in_deps)
      with len mono fld have "x < length (heap s)" "live (heap s ! x)" "d \<in> set (deps (heap s ! x))"
        by simp_all
      with 1(4) have "\<not> live (heap s' ! x)" by blast
      with x(2) show False by simp
    qed
  qed
qed

lemma all_supplied_live: "all_supplied s h d \<Longrightarrow> d < length (heap s) \<and> live (heap s ! d)"
  by (induction rule: all_supplied.induct) simp

lemma SubmitHash_exactly:
  assumes L: "3 \<le> LENGTH('w::len)"
    and X: "exact_inv [] (s :: 'w OrphanBlocksContainer)"
    and dist: "distinct (stored_hashes (heap s))"
  shows "\<exists>r s'. SubmitHash h s = Some (r, s') \<and>
           (\<forall>d<length (heap s).
              block (heap s ! d) \<in> set (case r of None \<Rightarrow> [] | Some res \<Rightarrow> res)
                \<longleftrightarrow> all_supplied s h d)"
proof (cases "lose_ends s h")
  case None
  then have "lose_ends s = (lose_ends s)(h := None)" by auto
  from all_supplied_released[OF X this] have "\<not> all_supplied s h d" for d
    using all_supplied_live[of s h d] by auto
  with None show ?thesis by (simp add: SubmitHash_def)
next
  case (Some l)
  let ?s0 = "s\<lparr>lose_ends := (lose_ends s)(h := None)\<rparr>"
  have X0: "exact_inv (rev l) ?s0" by (rule SubmitHash_start_exact[OF X Some])
  have P0: "call_inv s h (rev l) [] ?s0" using X0 by (simp add: call_inv_def)
  have "\<exists>res t. release_loop (rev l) [] ?s0 = Some (res, t) \<and> obc_inv [] t \<and> call_inv s h [] res t"
  proof (rule release_loop_rule[where P = "call_inv s h", OF L exact_inv_obc_inv[OF X0] P0])
    fix c stk res t stk' res' t'
    assume "obc_inv (c # stk) (t :: 'w OrphanBlocksContainer)"
      and "call_inv s h (c # stk) res t" and "release_step c stk res t = (stk', res', t')"
    then show "call_inv s h stk' res' t'" using release_step_call_inv[OF L] by blast
  qed
  then obtain res s' where fin: "release_loop (rev l) [] ?s0 = Some (res, s')"
    and P: "call_inv s h [] res s'" by blast
  from P have X': "exact_inv [] s'" and le: "lose_ends s' = (lose_ends s)(h := None)"
    and len: "length (heap s') = length (heap s)"
    and fld: "\<forall>i. deps (heap s' ! i) = deps (heap s ! i)"
    and mono: "\<forall>i<length (heap s). live (heap s' ! i) \<longrightarrow> live (heap s ! i)"
    and sup: "\<forall>i<length (heap s). live (heap s ! i) \<and> \<not> live (heap s' ! i) \<longrightarrow> all_supplied s h i"
    and rs: "set res = {block (heap s ! i) | i. i < length (heap s) \<and> live (heap s ! i) \<and> \<not> live (heap s' ! i)}"
    by (simp_all add: call_inv_def)
  have iff: "block (heap s ! d) \<in> set res \<longleftrightarrow> all_supplied s h d" if d: "d < length (heap s)" for d
  proof
    assume "block (heap s ! d) \<in> set res"
    with rs obtain i where i: "i < length (heap s)" "live (heap s ! i)" "\<not> live (heap s' ! i)"
      "block (heap s ! i) = block (heap s ! d)" by auto
    from i(1,4) d have "stored_hashes (heap s) ! i = stored_hashes (heap s) ! d"
      by (simp add: stored_hashes_def)
    moreover from i(1) d have "i < length (stored_hashes (heap s))"
      "d < length (stored_hashes (heap s))" by (simp_all add: stored_hashes_def)
    ultimately have "i = d" using nth_eq_iff_index_eq[OF dist] by blast
    with i sup show "all_supplied s h d" by simp
  next
    assume A: "all_supplied s h d"
    from all_supplied_released[OF X' le len fld mono A] all_supplied_live[OF A] d rs
    show "block (heap s ! d) \<in> set res" by auto
  qed
  from fin Some have "SubmitHash h s = Some (Some res, s')" by (simp add: SubmitHash_def)
  with iff show ?thesis by simp
qed

text \<open>C1 (amended). Take a sequence of \<open>AddBlock\<close> and \<open>SubmitHash\<close> calls in which no
  block hash is stored twice and every non-zero mask selects at least one parent and no
  parent hash twice, and the container \<open>s\<close> it reaches. Then \<open>SubmitHash h\<close> returns, it
  removes the key \<open>h\<close> from \<open>lose_ends\<close> and no other, and the block of a stored object is
  in its result if and only if the object is \<open>all_supplied\<close>: it has not been released
  before (its counter is between 1 and 3), it is in no set of \<open>lose_ends\<close> other than that
  of \<open>h\<close>, and every object not yet released that has it in its \<open>deps\<close> is released by
  this call as well.\<close>

theorem SubmitHash_releases_supplied:
  assumes L: "3 \<le> LENGTH('w::len)"
    and wm: "well_masked cs" and uniq: "distinct (added_hashes cs)"
    and run: "run cs (obc_empty :: 'w OrphanBlocksContainer) = Some (out, s)"
  shows "\<exists>r s'. SubmitHash h s = Some (r, s') \<and> lose_ends s' = (lose_ends s)(h := None) \<and>
           (\<forall>d<length (heap s).
              block (heap s ! d) \<in> set (case r of None \<Rightarrow> [] | Some res \<Rightarrow> res)
                \<longleftrightarrow> all_supplied s h d)"
proof -
  have X: "exact_inv [] s" by (rule run_exact[OF L exact_inv_empty wm run])
  have "released_inv [] (obc_empty :: 'w OrphanBlocksContainer)"
    by (simp add: released_inv_def obc_empty_def stored_hashes_def)
  from run_released_inv[OF L obc_inv_empty this, of cs] uniq run
  have dist: "distinct (stored_hashes (heap s))"
    by (auto simp: obc_empty_def released_inv_def stored_hashes_def)
  from SubmitHash_exactly[OF L X dist, of h] obtain r s' where
    S: "SubmitHash h s = Some (r, s')"
    and iff: "\<forall>d<length (heap s).
              block (heap s ! d) \<in> set (case r of None \<Rightarrow> [] | Some res \<Rightarrow> res)
                \<longleftrightarrow> all_supplied s h d" by blast
  with SubmitHash_lose_ends[OF S] show ?thesis by blast
qed

text \<open>C1, witness: B (missing previous A) is added before C (missing previous B); C is in
  the \<open>deps\<close> of B, and \<open>SubmitHash\<close> of A's hash releases both in one call.\<close>

theorem SubmitHash_releases_supplied_witness:
  "3 \<le> LENGTH(8)
   \<and> well_masked [Add block_B P_MISSING, Add block_C P_MISSING]
   \<and> distinct (added_hashes [Add block_B P_MISSING, Add block_C P_MISSING])
   \<and> run [Add block_B P_MISSING, Add block_C P_MISSING] (obc_empty :: 8 OrphanBlocksContainer)
       = Some ([], AddBlock block_C P_MISSING (AddBlock block_B P_MISSING obc_empty))
   \<and> all_supplied (AddBlock block_C P_MISSING (AddBlock block_B P_MISSING
         (obc_empty :: 8 OrphanBlocksContainer))) 10 1
   \<and> (\<exists>r s'. SubmitHash 10 (AddBlock block_C P_MISSING (AddBlock block_B P_MISSING
          (obc_empty :: 8 OrphanBlocksContainer))) = Some (r, s')
        \<and> block_B \<in> set (case r of None \<Rightarrow> [] | Some res \<Rightarrow> res)
        \<and> block_C \<in> set (case r of None \<Rightarrow> [] | Some res \<Rightarrow> res))"
proof -
  let ?s = "AddBlock block_C P_MISSING (AddBlock block_B P_MISSING
              (obc_empty :: 8 OrphanBlocksContainer))"
  have l: "3 \<le> LENGTH(8)" by simp
  have w: "well_masked [Add block_B P_MISSING, Add block_C P_MISSING]"
    by (simp add: selected_parents_def M_MISSING_def T_MISSING_def P_MISSING_def)
  have u: "distinct (added_hashes [Add block_B P_MISSING, Add block_C P_MISSING])"
    by (simp add: P_MISSING_def block_B_def block_C_def)
  have r: "run [Add block_B P_MISSING, Add block_C P_MISSING] (obc_empty :: 8 OrphanBlocksContainer)
             = Some ([], ?s)" by simp
  have len: "length (heap ?s) = 2" and lv: "live (heap ?s ! 0)" "live (heap ?s ! 1)"
    and d0: "deps (heap ?s ! 0) = [1]" and d1: "deps (heap ?s ! 1) = []"
    and b0: "block (heap ?s ! 0) = block_B" and b1: "block (heap ?s ! 1) = block_C"
    by (simp_all add: obc_eval live_def)
  have le: "lose_ends ?s k = (if k = 10 then Some [0] else None)" for k
    by (simp add: obc_eval)
  have d1': "deps (heap ?s ! Suc 0) = []" using d1 by simp
  have all: "P 0 \<Longrightarrow> P (Suc 0) \<Longrightarrow> \<forall>x<length (heap ?s). P x" for P
    unfolding len by (simp add: numeral_2_eq_2 less_Suc_eq)
  have a0: "all_supplied ?s 10 0"
  proof (rule all_supplied.intros)
    show "0 < length (heap ?s)" by (simp add: len)
    show "live (heap ?s ! 0)" by (rule lv)
    show "\<forall>k l. k \<noteq> 10 \<longrightarrow> lose_ends ?s k = Some l \<longrightarrow> 0 \<notin> set l" by (simp add: le)
    show "\<forall>x<length (heap ?s). live (heap ?s ! x) \<longrightarrow> 0 \<in> set (deps (heap ?s ! x))
            \<longrightarrow> all_supplied ?s 10 x"
      by (rule all) (simp_all add: d0 d1')
  qed
  have a1: "all_supplied ?s 10 1"
  proof (rule all_supplied.intros)
    show "1 < length (heap ?s)" by (simp add: len)
    show "live (heap ?s ! 1)" by (rule lv)
    show "\<forall>k l. k \<noteq> 10 \<longrightarrow> lose_ends ?s k = Some l \<longrightarrow> 1 \<notin> set l" by (simp add: le)
    show "\<forall>x<length (heap ?s). live (heap ?s ! x) \<longrightarrow> 1 \<in> set (deps (heap ?s ! x))
            \<longrightarrow> all_supplied ?s 10 x"
      by (rule all) (simp_all add: d0 d1' a0)
  qed
  from SubmitHash_releases_supplied [OF l w u r, of 10]
  obtain rr s' where S: "SubmitHash 10 ?s = Some (rr, s')"
    and iff: "\<forall>d<length (heap ?s).
              block (heap ?s ! d) \<in> set (case rr of None \<Rightarrow> [] | Some res \<Rightarrow> res)
                \<longleftrightarrow> all_supplied ?s 10 d" by blast
  from iff a0 a1 len b0 b1
  have "block_B \<in> set (case rr of None \<Rightarrow> [] | Some res \<Rightarrow> res)"
    "block_C \<in> set (case rr of None \<Rightarrow> [] | Some res \<Rightarrow> res)"
    by (metis zero_less_numeral, metis one_less_numeral_iff semiring_norm(76))
  with l w u r a1 S show ?thesis by blast
qed

text \<open>C1, counterexample to the claim as stated: with C added before B, C waits in
  \<open>lose_ends\<close> under B's hash, and \<open>SubmitHash\<close> of A's hash returns B alone.\<close>

theorem orphan_added_first_not_released:
  "map_option fst (run [Add block_C P_MISSING, Add block_B P_MISSING, Submit 10]
      (obc_empty :: 8 OrphanBlocksContainer)) = Some [block_B]
   \<and> block_C \<notin> set [block_B]"
  by (simp add: obc_eval)

text \<open>A block whose milestone and tip fields both name the stored block B is pushed twice
  onto the \<open>deps\<close> of B while its counter counts that hash once: the release of B
  decrements it twice, and D is returned although hash 99 was never submitted.\<close>

lemma duplicate_parent_fields_release_early:
  "map_option fst (run [Add block_B P_MISSING, Add block_D (M_MISSING OR T_MISSING OR P_MISSING),
      Submit 10] (obc_empty :: 8 OrphanBlocksContainer)) = Some [block_B, block_D]"
  by (simp add: obc_eval)

subsection \<open>Contains (C10)\<close>

lemma release_step_map_inv:
  assumes "map_inv s" and "release_step c stk res s = (stk', res', s')"
  shows "map_inv s'"
proof -
  let ?e' = "(heap s ! c)\<lparr>ndeps := ndeps (heap s ! c) - 1\<rparr>"
  have hp: "heap s' = (heap s)[c := ?e']"
    using assms(2) by (auto simp: release_step_def Let_def split: if_splits)
  have blk: "block (heap s' ! p) = block (heap s ! p)" if "p < length (heap s)" for p
    using hp that by (cases "p = c") simp_all
  have sub: "block_dep_map s' h = Some p \<Longrightarrow> block_dep_map s h = Some p" for h p
    using assms(2) by (auto simp: release_step_def Let_def split: if_splits)
  show ?thesis
    unfolding map_inv_def
  proof (intro allI impI)
    fix h p assume "block_dep_map s' h = Some p"
    then have "block_dep_map s h = Some p" by (rule sub)
    with assms(1) have p: "p < length (heap s)" "GetHash (block (heap s ! p)) = h"
      by (simp_all add: map_inv_def)
    with blk[OF p(1)] hp show "p < length (heap s') \<and> GetHash (block (heap s' ! p)) = h"
      by simp
  qed
qed

lemma SubmitHash_map_inv:
  assumes "map_inv s" and "SubmitHash hash s = Some (r, s')"
  shows "map_inv s'"
proof (cases "lose_ends s hash")
  case None
  with assms show ?thesis by (simp add: SubmitHash_def)
next
  case (Some l)
  with assms(2) obtain res where
    L: "release_loop (rev l) [] (s\<lparr>lose_ends := (lose_ends s)(hash := None)\<rparr>) = Some (res, s')"
    by (auto simp: SubmitHash_def split: option.splits)
  have "map_inv (s\<lparr>lose_ends := (lose_ends s)(hash := None)\<rparr>)"
    using assms(1) by (simp add: map_inv_def)
  from release_loop_partial[where Q = "\<lambda>stk res t. map_inv t", OF L this release_step_map_inv]
  show ?thesis by simp
qed

lemma AddBlock_map_inv:
  assumes "map_inv s"
  shows "map_inv (AddBlock blk missing_mask s)"
proof (cases "missing_mask = 0")
  case True
  with assms show ?thesis by (simp add: AddBlock_def)
next
  case False
  note H = AddBlock_heap[OF False, where blk = blk and s = s]
  show ?thesis
    unfolding map_inv_def
  proof (intro allI impI)
    fix h p assume "block_dep_map (AddBlock blk missing_mask s) h = Some p"
    then have hp: "((block_dep_map s)(GetHash blk \<mapsto> length (heap s))) h = Some p"
      by (simp add: H(5))
    show "p < length (heap (AddBlock blk missing_mask s)) \<and>
          GetHash (block (heap (AddBlock blk missing_mask s) ! p)) = h"
    proof (cases "h = GetHash blk")
      case True
      with hp have "p = length (heap s)" by simp
      with True H(1,4) show ?thesis by simp
    next
      case False
      with hp have "block_dep_map s h = Some p" by simp
      with assms have "p < length (heap s)" "GetHash (block (heap s ! p)) = h"
        by (simp_all add: map_inv_def)
      with H(1,2) show ?thesis by simp
    qed
  qed
qed

lemma run_map_inv:
  "map_inv s \<Longrightarrow> run cs s = Some (out, s') \<Longrightarrow> map_inv s'"
proof (induction cs arbitrary: s out)
  case Nil
  then show ?case by simp
next
  case (Cons call cs)
  show ?case
  proof (cases call)
    case (Add blk missing_mask)
    with Cons.prems(2) have "run cs (AddBlock blk missing_mask s) = Some (out, s')" by simp
    from Cons.IH[OF AddBlock_map_inv[OF Cons.prems(1)] this] show ?thesis .
  next
    case (Submit hash)
    with Cons.prems(2) obtain r t out' where S: "SubmitHash hash s = Some (r, t)"
      and R: "run cs t = Some (out', s')"
      by (auto split: option.splits)
    from Cons.IH[OF SubmitHash_map_inv[OF Cons.prems(1) S] R] show ?thesis .
  qed
qed

text \<open>C10. In every container that a sequence of \<open>AddBlock\<close> and \<open>SubmitHash\<close> calls
  reaches, \<open>Contains h\<close> holds exactly when \<open>block_dep_map\<close> stores under \<open>h\<close> an object whose
  block has the hash \<open>h\<close>; for a hash that is a key of \<open>lose_ends\<close> only, it is false.\<close>

theorem Contains_iff_held:
  assumes "run cs obc_empty = Some (out, s)"
  shows "(Contains h s \<longleftrightarrow>
            (\<exists>p<length (heap s). block_dep_map s h = Some p \<and> GetHash (block (heap s ! p)) = h))
         \<and> (lose_ends s h \<noteq> None \<and> block_dep_map s h = None \<longrightarrow> \<not> Contains h s)"
proof -
  have "map_inv obc_empty" by (simp add: map_inv_def obc_empty_def)
  from run_map_inv[OF this assms] show ?thesis
    by (auto simp: Contains_def map_inv_def)
qed

text \<open>C10, witness: with C stored, \<open>Contains\<close> holds for C's hash 12 and not for the
  awaited hash 11.\<close>

theorem Contains_iff_held_witness:
  "run [Add block_C P_MISSING] (obc_empty :: 8 OrphanBlocksContainer)
     = Some ([], AddBlock block_C P_MISSING obc_empty)
   \<and> Contains 12 (AddBlock block_C P_MISSING (obc_empty :: 8 OrphanBlocksContainer))
   \<and> lose_ends (AddBlock block_C P_MISSING (obc_empty :: 8 OrphanBlocksContainer)) 11 \<noteq> None
   \<and> \<not> Contains 11 (AddBlock block_C P_MISSING (obc_empty :: 8 OrphanBlocksContainer))"
proof -
  have r: "run [Add block_C P_MISSING] (obc_empty :: 8 OrphanBlocksContainer)
     = Some ([], AddBlock block_C P_MISSING obc_empty)" by simp
  have le: "lose_ends (AddBlock block_C P_MISSING (obc_empty :: 8 OrphanBlocksContainer)) 11 \<noteq> None"
    and bd: "block_dep_map (AddBlock block_C P_MISSING (obc_empty :: 8 OrphanBlocksContainer)) 11 = None"
    and held: "block_dep_map (AddBlock block_C P_MISSING (obc_empty :: 8 OrphanBlocksContainer)) 12 = Some 0"
    and hp: "0 < length (heap (AddBlock block_C P_MISSING (obc_empty :: 8 OrphanBlocksContainer)))"
       "GetHash (block (heap (AddBlock block_C P_MISSING (obc_empty :: 8 OrphanBlocksContainer)) ! 0)) = 12"
    by (simp_all add: obc_eval)
  from Contains_iff_held [OF r, of 12] held hp Contains_iff_held [OF r, of 11] le bd r
  show ?thesis by blast
qed

section \<open>The peer manager: proofs\<close>

subsection \<open>Oversized address messages (C4)\<close>

text \<open>C4 (amended). For an ADDR message whose address list is longer than
  \<open>kMaxAddressSize\<close>, no address is added and nothing is relayed; the sender is disconnected
  exactly when it is a seed, and kept otherwise.\<close>

theorem oversized_addr_message:
  "kMaxAddressSize < length addressList \<Longrightarrow>
   ProcessAddressMessage kMaxAddressSize IsRoutable addressList peer
     = (if isSeed peer then [Disconnect] else [])"
  by (simp add: ProcessAddressMessage_def)

text \<open>C4, witness: three addresses against a limit of two, from a peer that is no seed.\<close>

theorem oversized_addr_message_witness:
  "2 < length [3, 4, 5 :: nat]
   \<and> ProcessAddressMessage 2 routable_sample [3, 4, 5] peer_connected = []"
proof -
  have h: "2 < length [3, 4, 5 :: nat]" by simp
  show ?thesis using h oversized_addr_message [OF h, of routable_sample peer_connected]
    by (simp add: peer_connected_def)
qed

text \<open>C4, counterexample to the claim as stated: the same oversized message from a seed
  ends with \<open>Disconnect\<close>.\<close>

theorem oversized_addr_from_seed_disconnects:
  "2 < length [3, 4, 5 :: nat]
   \<and> isSeed peer_seed
   \<and> Disconnect \<in> set (ProcessAddressMessage 2 routable_sample [3, 4, 5] peer_seed)"
  by (simp add: ProcessAddressMessage_def peer_seed_def)

subsection \<open>The outbound limit (C5)\<close>

text \<open>Above the maximum the pass does skip.\<close>

lemma OpenConnection_skips_above_max:
  "kMax_outbound < GetOutboundNum env \<Longrightarrow> OpenConnection_pass env peers = Inr []"
  by (simp add: OpenConnection_pass_def)

text \<open>C5. The claim has the pass skip when the outbound count is at least
  \<open>kMax_outbound\<close>. The code compares with \<open>>\<close>: with exactly 8 outbound connections the
  pass tries the seed and dials an address.\<close>

theorem OpenConnection_dials_at_max_outbound:
  "kMax_outbound \<le> GetOutboundNum dial_env_full
   \<and> OpenConnection_pass dial_env_full [] = Inr [ConnectTo 7, ConnectTo 5, SetLastTry 5 1000]"
  by (simp add: OpenConnection_pass_def try_addresses.simps dial_env_full_def kMax_outbound_def)

subsection \<open>The timeout sweep (C6)\<close>

lemma CheckTimeout_filter:
  "CheckTimeout now peers =
     (filter (\<lambda>(c, p). IsVaild p \<and> \<not> timed_out now p) peers,
      map fst (filter (\<lambda>(c, p). IsVaild p \<and> timed_out now p) peers))"
proof (induction peers)
  case Nil
  show ?case by simp
next
  case (Cons a peers)
  obtain c p where a: "a = (c, p)" by (cases a)
  show ?case
    unfolding a CheckTimeout.simps Cons.IH
    by (simp add: timed_out_def ping_or_sync_timeout_def setup_timeout_def)
qed

text \<open>C6. For every peer \<open>p\<close> in the peer map under the connection \<open>c\<close>, after the sweep at
  time \<open>now\<close>: \<open>Disconnect\<close> was called on it exactly when it is valid and timed out (a
  fully connected peer by ping wait, ping failures or sync timeout; any other peer by the
  connection setup timeout); it is still in the map exactly when it is valid and not timed
  out, so an invalid peer is removed without \<open>Disconnect\<close>.\<close>

theorem CheckTimeout_sweep:
  assumes "(c, p) \<in> set peers" and "distinct (map fst peers)"
  shows "(c \<in> set (snd (CheckTimeout now peers)) \<longleftrightarrow> IsVaild p \<and> timed_out now p)
       \<and> map_of (fst (CheckTimeout now peers)) c
           = (if IsVaild p \<and> \<not> timed_out now p then Some p else None)"
proof -
  have only: "q = p" if "(c, q) \<in> set peers" for q
    using assms that by (meson eq_key_imp_eq_value)
  let ?kept = "filter (\<lambda>(c, p). IsVaild p \<and> \<not> timed_out now p) peers"
  let ?gone = "filter (\<lambda>(c, p). IsVaild p \<and> timed_out now p) peers"
  have d: "distinct (map fst ?kept)"
    using assms(2) by (simp add: distinct_map_filter)
  have 1: "c \<in> set (map fst ?gone) \<longleftrightarrow> IsVaild p \<and> timed_out now p"
  proof
    assume "c \<in> set (map fst ?gone)"
    then obtain q where q: "(c, q) \<in> set peers" "IsVaild q \<and> timed_out now q" by auto
    with only[OF q(1)] show "IsVaild p \<and> timed_out now p" by simp
  next
    assume "IsVaild p \<and> timed_out now p"
    with assms(1) have "(c, p) \<in> set ?gone" by simp
    then have "fst (c, p) \<in> fst ` set ?gone" by (rule imageI)
    then show "c \<in> set (map fst ?gone)" by simp
  qed
  have 2: "map_of ?kept c = (if IsVaild p \<and> \<not> timed_out now p then Some p else None)"
  proof (cases "IsVaild p \<and> \<not> timed_out now p")
    case True
    with assms(1) have "(c, p) \<in> set ?kept" by simp
    with d have "map_of ?kept c = Some p" by (rule map_of_is_SomeI)
    with True show ?thesis by simp
  next
    case False
    have "c \<notin> fst ` set ?kept"
    proof
      assume "c \<in> fst ` set ?kept"
      then obtain q where q: "(c, q) \<in> set peers" "IsVaild q \<and> \<not> timed_out now q" by auto
      with only[OF q(1)] False show False by simp
    qed
    then have "map_of ?kept c = None" by (rule map_of_eq_None_iff[THEN iffD2])
    with False show ?thesis by simp
  qed
  from 1 2 show ?thesis by (simp add: CheckTimeout_filter)
qed

text \<open>C6, witness: at time 2000 a peer that connected at 1000 without finishing the handshake
  is disconnected and removed, a fully connected peer pinged at 1900 stays.\<close>

theorem CheckTimeout_sweep_witness:
  "(5, peer_handshaking) \<in> set [(4 :: connection, peer_connected), (5, peer_handshaking)]
   \<and> distinct (map fst [(4 :: connection, peer_connected), (5, peer_handshaking)])
   \<and> timed_out 2000 peer_handshaking \<and> \<not> timed_out 2000 peer_connected
   \<and> 5 \<in> set (snd (CheckTimeout 2000 [(4 :: connection, peer_connected), (5, peer_handshaking)]))
   \<and> map_of (fst (CheckTimeout 2000 [(4 :: connection, peer_connected), (5, peer_handshaking)])) 5 = None
   \<and> 4 \<notin> set (snd (CheckTimeout 2000 [(4 :: connection, peer_connected), (5, peer_handshaking)]))
   \<and> map_of (fst (CheckTimeout 2000 [(4 :: connection, peer_connected), (5, peer_handshaking)])) 4
        = Some peer_connected"
proof -
  let ?peers = "[(4 :: nat, peer_connected), (5, peer_handshaking)]"
  have m5: "(5, peer_handshaking) \<in> set ?peers" and m4: "(4, peer_connected) \<in> set ?peers"
    and d: "distinct (map fst ?peers)" by simp_all
  have t5: "timed_out 2000 peer_handshaking" and v5: "IsVaild peer_handshaking"
    by (simp_all add: timed_out_def setup_timeout_def peer_handshaking_def
        kConnectionSetupTimeout_def)
  have t4: "\<not> timed_out 2000 peer_connected" and v4: "IsVaild peer_connected"
    by (simp_all add: timed_out_def ping_or_sync_timeout_def peer_connected_def
        kPingWaitTimeout_def kMaxPingFailures_def)
  from CheckTimeout_sweep [OF m5 d, of 2000] CheckTimeout_sweep [OF m4 d, of 2000]
    m5 d t5 v5 t4 v4
  show ?thesis by (simp del: CheckTimeout.simps)
qed

subsection \<open>HasConnectedTo (C9)\<close>

text \<open>When every peer has its version message, \<open>HasConnectedTo\<close> is the stated
  disjunction.\<close>

lemma HasConnectedTo_after_handshake:
  "\<forall>(c, p) \<in> set peers. versionMessage p \<noteq> None \<Longrightarrow>
   HasConnectedTo addr peers =
     Inr (\<exists>(c, p) \<in> set peers. addr = address p \<or> addr = address_me (the (versionMessage p)))"
  by (induction peers) (auto split: option.splits)

text \<open>C9. The claim has \<open>HasConnectedTo\<close> well defined when a peer has not completed the
  version handshake. The code reads \<open>versionMessage->address_me_\<close> of every peer whose remote
  address differs from the argument: with one such peer whose \<open>versionMessage\<close> is still
  null, the call dereferences a null pointer.\<close>

theorem HasConnectedTo_null_versionMessage:
  "HasConnectedTo 2 [(0, peer_handshaking)] = Inl NullDereference"
  by (simp add: peer_handshaking_def)

end
